theory Spec2Isabelle
  imports Complex_Main
begin


section \<open>Python values\<close>

text \<open>
  Python floats are idealised as exact reals: an arithmetic operation of the source is
  the corresponding operation on \<open>real\<close>. The weighting engine alone is also modelled
  with its roundings, which are parameters of its definition. A \<open>dict\<close> is an
  association list in insertion order, since the source iterates over \<open>items()\<close> and
  \<open>values()\<close>.
\<close>

type_synonym 'v dict = "(string \<times> 'v) list"

datatype py_error = NameError string | TypeError | OtherError string

text \<open>\<open>d.get(k)\<close> on a dict whose values may themselves be \<open>None\<close>.\<close>

definition opt_get :: "(real option) dict \<Rightarrow> string \<Rightarrow> real option" where
  "opt_get d k = (case map_of d k of None \<Rightarrow> None | Some v \<Rightarrow> v)"

text \<open>\<open>d.get(k, default)\<close>.\<close>

definition get_default :: "real dict \<Rightarrow> string \<Rightarrow> real \<Rightarrow> real" where
  "get_default d k dflt = (case map_of d k of None \<Rightarrow> dflt | Some v \<Rightarrow> v)"

text \<open>\<open>d[k] = v\<close>: an existing key keeps its position, a new key is appended.\<close>

fun dict_set :: "'v dict \<Rightarrow> string \<times> 'v \<Rightarrow> 'v dict" where
  "dict_set [] (k, v) = [(k, v)]"
| "dict_set ((k', v') # d) (k, v) =
     (if k' = k then (k, v) # d else (k', v') # dict_set d (k, v))"

text \<open>
  \<open>d[k] *= c\<close> for a key that is present; \<open>rnd\<close> rounds the product to a float
  (the identity in exact arithmetic).
\<close>

definition dict_scale :: "(real \<Rightarrow> real) \<Rightarrow> real dict \<Rightarrow> string \<times> real \<Rightarrow> real dict" where
  "dict_scale rnd d kc =
     map (\<lambda>(k', v). if k' = fst kc then (k', rnd (v * snd kc)) else (k', v)) d"

text \<open>The float literals of a table: each decimal constant rounded to a float.\<close>

definition literals :: "(real \<Rightarrow> real) \<Rightarrow> real dict \<Rightarrow> real dict" where
  "literals rnd d = map (\<lambda>(k, v). (k, rnd v)) d"

text \<open>
  \<open>round(x, n)\<close> of Python. Its argument is a float, the outcome of float arithmetic, and
  its result is the float nearest to a decimal with \<open>n\<close> digits after the point. Which of
  two neighbouring decimals it returns for an argument at or near the middle between them
  depends on the binary expansion of the argument: \<open>round(40.85, 1)\<close> is \<open>40.9\<close> and
  \<open>round(2.675, 2)\<close> is \<open>2.67\<close>. The scoring functions below therefore take the rounding
  as a parameter \<open>rf\<close>, applied to the exact value of the rounded expression, the float
  returned being identified with the decimal it is printed as.

  \<open>rounds rf\<close> is what is known of it for the digits the program uses (0, 1 and 2): the
  result is a decimal with \<open>n\<close> digits, and it is within half a unit of the last digit of
  the argument, up to the error of the float arithmetic that produced the argument, for
  which \<open>round_slack\<close> is a generous relative bound. Both neighbours are allowed at and
  near a middle.
\<close>

definition round_slack :: real where
  "round_slack = 1 / 10 ^ 9"

definition rounds :: "(real \<Rightarrow> nat \<Rightarrow> real) \<Rightarrow> bool" where
  "rounds rf =
     (\<forall>x n. n \<le> 2 \<longrightarrow>
        (\<exists>k::int. rf x n = of_int k / 10 ^ n) \<and>
        \<bar>rf x n - x\<bar> \<le> 1 / (2 * 10 ^ n) + round_slack * (1 + \<bar>x\<bar>))"

text \<open>
  One rounding of this kind, used for the sample runs: the nearest decimal of the exact
  argument, a middle going to the even neighbour. It agrees with every other rounding
  that satisfies \<open>rounds\<close> wherever the argument is not within the slack of a middle.
\<close>

definition round_half_even :: "real \<Rightarrow> int" where
  "round_half_even x =
     (let f = \<lfloor>x\<rfloor>; d = x - of_int f
      in if d < 1 / 2 then f else if 1 / 2 < d then f + 1
         else if even f then f else f + 1)"

definition decimal_round :: "real \<Rightarrow> nat \<Rightarrow> real" where
  "decimal_round x n = of_int (round_half_even (x * 10 ^ n)) / 10 ^ n"

section \<open>Normalization engine (services/aggregator.py)\<close>

definition normalize_life_expectancy :: "real option \<Rightarrow> real" where
  "normalize_life_expectancy value =
     (case value of None \<Rightarrow> 0.5 | Some v \<Rightarrow> max 0 (min 1 ((v - 50) / 35)))"

definition normalize_gdp_per_capita :: "real option \<Rightarrow> real" where
  "normalize_gdp_per_capita value =
     (case value of None \<Rightarrow> 0.5 | Some v \<Rightarrow> min (v / 80000) 1)"

definition normalize_population :: "real option \<Rightarrow> real" where
  "normalize_population value =
     (case value of None \<Rightarrow> 0.5 | Some v \<Rightarrow> 1 - min (v / 1500000000) 1)"

definition normalize_pm25 :: "real option \<Rightarrow> real" where
  "normalize_pm25 value =
     (case value of None \<Rightarrow> 0.5 | Some v \<Rightarrow> 1 - min (v / 100) 1)"

definition normalize_pm10 :: "real option \<Rightarrow> real" where
  "normalize_pm10 value =
     (case value of None \<Rightarrow> 0.5 | Some v \<Rightarrow> 1 - min (v / 100) 1)"

definition normalize_travel_advisory_score :: "real option \<Rightarrow> real" where
  "normalize_travel_advisory_score value =
     (case value of None \<Rightarrow> 0.2 | Some v \<Rightarrow> 1 - v / 100)"

definition normalize_temperature :: "real option \<Rightarrow> real" where
  "normalize_temperature value =
     (case value of None \<Rightarrow> 0.5
      | Some v \<Rightarrow>
          if 15 \<le> v \<and> v \<le> 28 then 1
          else if v < 15 then max 0 (1 - (15 - v) / 15)
          else max 0 (1 - (v - 28) / 12))"

definition normalize_humidity :: "real option \<Rightarrow> real" where
  "normalize_humidity value = (case value of None \<Rightarrow> 0.5 | Some v \<Rightarrow> 0.5)"

text \<open>\<open>_normalize_metrics\<close>: eight assignments into a fresh dict, in this order.\<close>

definition normalize_metrics :: "(real option) dict \<Rightarrow> real dict" where
  "normalize_metrics metrics =
     [(''life_expectancy'', normalize_life_expectancy (opt_get metrics ''life_expectancy'')),
      (''gdp_per_capita'', normalize_gdp_per_capita (opt_get metrics ''gdp_per_capita'')),
      (''population'', normalize_population (opt_get metrics ''population'')),
      (''pm25'', normalize_pm25 (opt_get metrics ''pm25'')),
      (''pm10'', normalize_pm10 (opt_get metrics ''pm10'')),
      (''travel_advisory_score'',
         normalize_travel_advisory_score (opt_get metrics ''travel_advisory_score'')),
      (''temperature'', normalize_temperature (opt_get metrics ''temperature'')),
      (''humidity'', normalize_humidity (opt_get metrics ''humidity''))]"

text \<open>
  \<open>normalize(metricName, value)\<close> of the specification: the entry that
  \<open>_normalize_metrics\<close> computes for \<open>metricName\<close> from a raw mapping holding \<open>value\<close>
  there.
\<close>

definition normalize_one :: "string \<Rightarrow> real option \<Rightarrow> real option" where
  "normalize_one name value = map_of (normalize_metrics [(name, value)]) name"

definition metric_names :: "string list" where
  "metric_names = [''life_expectancy'', ''gdp_per_capita'', ''population'', ''pm25'', ''pm10'',
     ''travel_advisory_score'', ''temperature'', ''humidity'']"

text \<open>
  The fallback column of the specification's normalization table, written from the
  specification for comparison with the code: 0.2 for the travel advisory, 0.5 elsewhere.
\<close>

definition spec_fallback :: "string \<Rightarrow> real" where
  "spec_fallback name = (if name = ''travel_advisory_score'' then 0.2 else 0.5)"

section \<open>Weighting engine (scoring/weighting_engine.py)\<close>

definition base_weights :: "real dict" where
  "base_weights =
     [(''life_expectancy'', 0.20), (''gdp_per_capita'', 0.20), (''population'', 0.10),
      (''pm25'', 0.15), (''travel_advisory_score'', 0.25), (''temperature'', 0.10),
      (''humidity'', 0.10)]"

definition low_table :: "real dict" where
  "low_table =
     [(''life_expectancy'', 0.20), (''gdp_per_capita'', 0.15), (''population'', 0.05),
      (''pm25'', 0.20), (''travel_advisory_score'', 0.35), (''temperature'', 0.15),
      (''humidity'', 0.00)]"

definition high_table :: "real dict" where
  "high_table =
     [(''life_expectancy'', 0.20), (''gdp_per_capita'', 0.30), (''population'', 0.15),
      (''pm25'', 0.10), (''travel_advisory_score'', 0.10), (''temperature'', 0.15),
      (''humidity'', 0.00)]"

definition short_term_multipliers :: "real dict" where
  "short_term_multipliers =
     [(''temperature'', 1.2), (''humidity'', 1.1), (''pm25'', 1.2),
      (''travel_advisory_score'', 1.2), (''life_expectancy'', 0.8), (''population'', 0.8)]"

definition long_term_multipliers :: "real dict" where
  "long_term_multipliers =
     [(''life_expectancy'', 1.2), (''gdp_per_capita'', 1.2), (''population'', 1.2),
      (''temperature'', 0.8), (''humidity'', 0.9), (''pm25'', 0.9),
      (''travel_advisory_score'', 0.9)]"

text \<open>
  \<open>get_weights\<close> up to the renormalization: the base dict, the assignments of the
  tolerance branch, then the in-place multiplications of the duration branch.
\<close>

definition adjusted_weights :: "(real \<Rightarrow> real) \<Rightarrow> string \<Rightarrow> string \<Rightarrow> real dict" where
  "adjusted_weights rnd risk_tolerance duration =
     (let weights0 = literals rnd base_weights;
          weights1 =
            (if risk_tolerance = ''low'' then foldl dict_set weights0 (literals rnd low_table)
             else if risk_tolerance = ''high''
               then foldl dict_set weights0 (literals rnd high_table)
             else weights0)
      in if duration = ''short-term''
           then foldl (dict_scale rnd) weights1 (literals rnd short_term_multipliers)
         else if duration = ''long-term''
           then foldl (dict_scale rnd) weights1 (literals rnd long_term_multipliers)
         else weights1)"

text \<open>
  \<open>get_weights\<close>, with its arithmetic as parameters: \<open>rnd\<close> rounds a literal, a
  product or a quotient to a float and \<open>fsum\<close> is \<open>sum\<close> on a list of floats. Every
  weight is divided by the total when the total is positive.
\<close>

definition get_weights_with ::
  "(real \<Rightarrow> real) \<Rightarrow> (real list \<Rightarrow> real) \<Rightarrow> string \<Rightarrow> string \<Rightarrow> real dict" where
  "get_weights_with rnd fsum risk_tolerance duration =
     (let weights = adjusted_weights rnd risk_tolerance duration;
          total_weight = fsum (map snd weights)
      in if total_weight > 0 then map (\<lambda>(k, v). (k, rnd (v / total_weight))) weights
         else weights)"

text \<open>\<open>get_weights\<close> in exact arithmetic, as the rest of the pipeline is modelled.\<close>

definition get_weights :: "string \<Rightarrow> string \<Rightarrow> real dict" where
  "get_weights risk_tolerance duration =
     get_weights_with (\<lambda>x. x) sum_list risk_tolerance duration"

text \<open>
  Floating-point arithmetic in the standard model: every rounding has a relative error of
  at most the unit roundoff of a double, \<open>2 ^ -53\<close> (no overflow or underflow occurs at
  the magnitudes of the weights).
\<close>

definition unit_roundoff :: real where
  "unit_roundoff = 1 / 2 ^ 53"

definition accurate :: "(real \<Rightarrow> real) \<Rightarrow> bool" where
  "accurate rnd = (\<forall>x. \<bar>rnd x - x\<bar> \<le> unit_roundoff * \<bar>x\<bar>)"

text \<open>
  A summation of \<open>n\<close> non-negative floats is accurate when its relative error is at
  most that of \<open>n\<close> successive roundings.
\<close>

definition sum_accurate :: "(real list \<Rightarrow> real) \<Rightarrow> bool" where
  "sum_accurate fsum =
     (\<forall>xs. (\<forall>x \<in> set xs. 0 \<le> x) \<longrightarrow>
        (1 - unit_roundoff) ^ length xs * sum_list xs \<le> fsum xs \<and>
        fsum xs \<le> (1 + unit_roundoff) ^ length xs * sum_list xs)"

text \<open>\<open>sum\<close> as a loop of float additions from left to right, starting at 0.\<close>

definition left_to_right_sum :: "(real \<Rightarrow> real) \<Rightarrow> real list \<Rightarrow> real" where
  "left_to_right_sum rnd xs = foldl (\<lambda>acc x. rnd (acc + x)) 0 xs"

section \<open>Scoring engine (scoring/scoring_engine.py)\<close>

text \<open>
  The loop of \<open>score_country\<close> over \<open>metrics.items()\<close>. A metric whose value is
  \<open>None\<close> makes the multiplication raise \<open>TypeError\<close>. The function returns
  \<open>round(score * 100, 2)\<close>, with \<open>rf\<close> for \<open>round\<close>.
\<close>

fun score_loop :: "real \<Rightarrow> (real option) dict \<Rightarrow> real dict \<Rightarrow> py_error + real" where
  "score_loop score [] weights = Inr score"
| "score_loop score ((metric_name, None) # rest) weights = Inl TypeError"
| "score_loop score ((metric_name, Some metric_value) # rest) weights =
     score_loop (score + metric_value * get_default weights metric_name 0) rest weights"

definition score_country ::
  "(real \<Rightarrow> nat \<Rightarrow> real) \<Rightarrow> (real option) dict \<Rightarrow> real dict \<Rightarrow> py_error + real" where
  "score_country rf metrics weights =
     (case score_loop 0 metrics weights of
        Inl e \<Rightarrow> Inl e
      | Inr score \<Rightarrow> Inr (rf (score * 100) 2))"

section \<open>Fetch pipeline (services/aggregator.py, \<open>_fetch_and_build\<close>)\<close>

text \<open>
  What \<open>fetch_country_profile\<close> hands back: the fields the pipeline reads. A falsy
  profile (\<open>None\<close> or an empty dict) is \<open>None\<close> of the option type.
\<close>

record country_profile =
  profile_country_name :: "string option"
  profile_iso2 :: "string option"
  profile_lat :: "real option"
  profile_lon :: "real option"
  profile_population :: "real option"

text \<open>One slot of \<open>asyncio.gather(..., return_exceptions=True)\<close>.\<close>

datatype 'a gathered = Exception | Value 'a

text \<open>
  The environment of one pipeline execution: either an exception escapes the coroutine
  (the HTTP client cannot be set up or closed, the task is cancelled), or the five
  providers answer.
\<close>

datatype pipeline_env =
    Escapes py_error
  | Responds "country_profile option" "(real option) dict gathered"
      "(real option) dict gathered" "(real option) dict gathered"
      "(real option) dict gathered"

record sub_scores =
  travel_risk :: real
  health_infra :: real
  env_stability :: real

text \<open>
  The explanation is an f-string; it is represented by the values it interpolates:
  the overall score, the risk tolerance, the duration and the three rounded sub-scores.
\<close>

datatype explanation = Explanation real string string real real real

record debug_analysis =
  weights_used :: "real dict"
  debug_raw_metrics :: "(real option) dict"
  debug_normalized_metrics :: "real dict"

record analysis_result =
  country_code :: string
  country_name :: "string option"
  overall_score :: real
  result_sub_scores :: sub_scores
  result_explanation :: explanation
  result_debug_analysis :: "debug_analysis option"

text \<open>
  The values that travel through \<open>analyze_country\<close> in the slot of the result: the empty
  dict, a built result dict, or (Python being untyped) a whole returned tuple.
\<close>

datatype pyval =
    EmptyDict
  | ResultDict analysis_result
  | ResultTuple pyval bool "string list"

type_synonym outcome = "pyval \<times> bool \<times> string list"

definition or_empty :: "(real option) dict gathered \<Rightarrow> (real option) dict" where
  "or_empty r = (case r of Exception \<Rightarrow> [] | Value d \<Rightarrow> d)"

definition build_raw_metrics ::
  "real option \<Rightarrow> (real option) dict \<Rightarrow> (real option) dict \<Rightarrow> (real option) dict \<Rightarrow>
   (real option) dict \<Rightarrow> (real option) dict" where
  "build_raw_metrics population world_bank_metrics_data travel_advisory_data weather_data aqi_data =
     [(''life_expectancy'', opt_get world_bank_metrics_data ''life_expectancy''),
      (''gdp_per_capita'', opt_get world_bank_metrics_data ''gdp_per_capita''),
      (''population'', population),
      (''pm25'', opt_get aqi_data ''aqi''),
      (''pm10'', opt_get aqi_data ''aqi''),
      (''travel_advisory_score'', opt_get travel_advisory_data ''advisory_score''),
      (''temperature'', opt_get weather_data ''temperature''),
      (''humidity'', None)]"

definition missing_of :: "(real option) dict \<Rightarrow> string list" where
  "missing_of raw_metrics = map fst (filter (\<lambda>(metric_name, v). v = None) raw_metrics)"

definition travel_risk_sub_score :: "real dict \<Rightarrow> real" where
  "travel_risk_sub_score normalized_scores =
     (1 - get_default normalized_scores ''travel_advisory_score'' 0.5) * 100"

definition health_infra_score :: "real dict \<Rightarrow> real" where
  "health_infra_score normalized_scores =
     (get_default normalized_scores ''life_expectancy'' 0.5
        + get_default normalized_scores ''gdp_per_capita'' 0.5) / 2 * 100"

definition env_stability_score :: "real dict \<Rightarrow> real" where
  "env_stability_score normalized_scores =
     (get_default normalized_scores ''pm25'' 0.5 + get_default normalized_scores ''pm10'' 0.5
        + get_default normalized_scores ''temperature'' 0.5) / 3 * 100"

definition metrics_for_scoring :: "real dict \<Rightarrow> (real option) dict" where
  "metrics_for_scoring normalized_scores =
     map (\<lambda>k. (k, map_of normalized_scores k))
       [''life_expectancy'', ''gdp_per_capita'', ''population'', ''pm25'', ''pm10'',
        ''travel_advisory_score'', ''temperature'', ''humidity'']"

text \<open>
  The part of \<open>_fetch_and_build\<close> after the identity checks: raw metrics, missing
  metrics, normalization, sub-scores, weights, score and the result dict.
\<close>

definition build_result ::
  "(real \<Rightarrow> nat \<Rightarrow> real) \<Rightarrow> string \<Rightarrow> string \<Rightarrow> string \<Rightarrow> bool \<Rightarrow> country_profile \<Rightarrow>
   (real option) dict \<Rightarrow> (real option) dict \<Rightarrow> (real option) dict \<Rightarrow> (real option) dict \<Rightarrow>
   py_error + outcome" where
  "build_result rf cc risk_tolerance duration debug_mode country_profile_data
       world_bank_metrics_data travel_advisory_data weather_data aqi_data =
     (let raw_metrics =
            build_raw_metrics (profile_population country_profile_data)
              world_bank_metrics_data travel_advisory_data weather_data aqi_data;
          missing_metrics = missing_of raw_metrics;
          normalized_scores = normalize_metrics raw_metrics;
          travel = travel_risk_sub_score normalized_scores;
          health = health_infra_score normalized_scores;
          env_st = env_stability_score normalized_scores;
          weights = get_weights risk_tolerance duration
      in (case score_country rf (metrics_for_scoring normalized_scores) weights of
            Inl e \<Rightarrow> Inl e
          | Inr score \<Rightarrow>
              Inr (ResultDict
                    \<lparr>country_code = cc,
                     country_name = profile_country_name country_profile_data,
                     overall_score = rf score 1,
                     result_sub_scores =
                       \<lparr>travel_risk = rf travel 0,
                        health_infra = rf health 0,
                        env_stability = rf env_st 0\<rparr>,
                     result_explanation =
                       Explanation (rf score 1) risk_tolerance duration
                         (rf travel 0) (rf health 0) (rf env_st 0),
                     result_debug_analysis =
                       (if debug_mode
                        then Some \<lparr>weights_used = weights,
                                   debug_raw_metrics = raw_metrics,
                                   debug_normalized_metrics = normalized_scores\<rparr>
                        else None)\<rparr>,
                   False, missing_metrics)))"

definition fetch_and_build ::
  "(real \<Rightarrow> nat \<Rightarrow> real) \<Rightarrow> string \<Rightarrow> string \<Rightarrow> string \<Rightarrow> bool \<Rightarrow> pipeline_env \<Rightarrow> py_error + outcome" where
  "fetch_and_build rf cc risk_tolerance duration debug_mode env =
     (case env of
        Escapes e \<Rightarrow> Inl e
      | Responds profile r0 r1 r2 r3 \<Rightarrow>
          (case profile of
             None \<Rightarrow> Inr (EmptyDict, False, [''country_profile''])
           | Some country_profile_data \<Rightarrow>
               (if profile_iso2 country_profile_data = None
                   \<or> profile_iso2 country_profile_data = Some []
                then Inr (EmptyDict, False, [''iso2_code''])
                else build_result rf cc risk_tolerance duration debug_mode country_profile_data
                       (or_empty r0) (or_empty r1) (or_empty r2) (or_empty r3))))"

section \<open>Result cache and in-flight registry (services/cache_manager.py)\<close>

text \<open>
  Modelled from the spec: \<open>cachetools.TTLCache(maxsize=100, ttl=3600)\<close>, a library class
  outside the repository. An entry is a key, a value and the time at which it expires; the
  list is ordered from the oldest to the newest insertion. A lookup sees only entries that
  have not expired; an insertion drops the expired entries and any entry of the same key,
  evicts the oldest entry when the capacity is reached, and appends the new entry, which
  expires \<open>ttl\<close> seconds later.
\<close>

type_synonym ttl_cache = "(string \<times> pyval \<times> real) list"

definition ttl :: real where
  "ttl = 3600"

definition maxsize :: nat where
  "maxsize = 100"

definition live :: "real \<Rightarrow> string \<times> pyval \<times> real \<Rightarrow> bool" where
  "live now entry = (now < snd (snd entry))"

definition cache_get :: "ttl_cache \<Rightarrow> real \<Rightarrow> string \<Rightarrow> pyval option" where
  "cache_get c now k = map_option fst (map_of (filter (live now) c) k)"

definition cache_put :: "ttl_cache \<Rightarrow> real \<Rightarrow> string \<Rightarrow> pyval \<Rightarrow> ttl_cache" where
  "cache_put c now k v =
     (let c1 = filter (\<lambda>entry. fst entry \<noteq> k) (filter (live now) c);
          c2 = (if maxsize \<le> length c1 then tl c1 else c1)
      in c2 @ [(k, v, now + ttl)])"

datatype task_status = Pending | Done "py_error + outcome"

text \<open>A task created by \<open>asyncio.create_task(_fetch_and_build(...))\<close>, with its arguments.\<close>

record task =
  task_country_code :: string
  task_risk_tolerance :: string
  task_duration :: string
  task_debug_mode :: bool
  task_status :: task_status

text \<open>
  A call of \<open>analyze_country\<close>: suspended at \<open>await task\<close> on the task it created,
  suspended at \<open>await get_in_flight(cache_key)\<close> on a task of another call, returned, or
  left by an exception. The suspended forms carry the cache key and the index of the task.
\<close>

datatype caller =
    AwaitingOwnTask string nat
  | AwaitingInFlight string nat
  | Returned outcome
  | Raised py_error

text \<open>
  The process state: the two module-level objects of the cache manager, the tasks and the
  calls of the event loop, and the clock the cache reads.
\<close>

record state =
  country_cache :: ttl_cache
  in_flight_requests :: "string \<rightharpoonup> nat"
  tasks :: "task list"
  callers :: "caller list"
  clock :: real

definition init_state :: state where
  "init_state = \<lparr>country_cache = [], in_flight_requests = Map.empty, tasks = [],
     callers = [], clock = 0\<rparr>"

definition get_cached :: "state \<Rightarrow> string \<Rightarrow> pyval option" where
  "get_cached s k = cache_get (country_cache s) (clock s) k"

text \<open>\<open>set_cache\<close>: the argument is \<open>None\<close> of the option type when the data is \<open>None\<close>.\<close>

definition set_cache :: "string \<Rightarrow> pyval option \<Rightarrow> state \<Rightarrow> state" where
  "set_cache k data s =
     (case data of
        None \<Rightarrow> s
      | Some d \<Rightarrow> s\<lparr>country_cache := cache_put (country_cache s) (clock s) k d\<rparr>)"

definition is_in_flight :: "state \<Rightarrow> string \<Rightarrow> bool" where
  "is_in_flight s k = (in_flight_requests s k \<noteq> None)"

definition get_in_flight :: "state \<Rightarrow> string \<Rightarrow> nat option" where
  "get_in_flight s k = in_flight_requests s k"

definition set_in_flight :: "string \<Rightarrow> nat \<Rightarrow> state \<Rightarrow> state" where
  "set_in_flight k t s = s\<lparr>in_flight_requests := (in_flight_requests s)(k \<mapsto> t)\<rparr>"

definition remove_in_flight :: "string \<Rightarrow> state \<Rightarrow> state" where
  "remove_in_flight k s =
     (if is_in_flight s k then s\<lparr>in_flight_requests := (in_flight_requests s)(k := None)\<rparr>
      else s)"

section \<open>Aggregator (services/aggregator.py, \<open>analyze_country\<close>)\<close>

definition cache_key :: "string \<Rightarrow> string \<Rightarrow> string \<Rightarrow> string" where
  "cache_key cc risk_tolerance duration = cc @ ''_'' @ risk_tolerance @ ''_'' @ duration"

definition task_key :: "task \<Rightarrow> string" where
  "task_key t = cache_key (task_country_code t) (task_risk_tolerance t) (task_duration t)"

definition status_of :: "state \<Rightarrow> nat \<Rightarrow> task_status" where
  "status_of s t = (if t < length (tasks s) then task_status (tasks s ! t) else Pending)"

definition add_caller :: "caller \<Rightarrow> state \<Rightarrow> state" where
  "add_caller c s = s\<lparr>callers := callers s @ [c]\<rparr>"

definition set_caller :: "nat \<Rightarrow> caller \<Rightarrow> state \<Rightarrow> state" where
  "set_caller i c s = s\<lparr>callers := (callers s)[i := c]\<rparr>"

text \<open>
  The event loop is single-threaded: a coroutine runs without interruption from one
  suspension point to the next, and the callbacks of a finished task (the wake-ups of
  the calls awaiting it) are queued together, in the order in which the calls began to
  await, so that they run one after the other with nothing in between.

  \<open>await\<close> on a task: a pending task suspends the call; a finished task hands over its
  result, or raises its exception, without suspending. The waiter of
  \<open>analyze_country\<close> returns what the \<open>await\<close> gave it, with \<open>False\<close> and an
  empty list.
\<close>

definition await_in_flight :: "string \<Rightarrow> nat \<Rightarrow> state \<Rightarrow> caller" where
  "await_in_flight k t s =
     (case status_of s t of
        Pending \<Rightarrow> AwaitingInFlight k t
      | Done (Inl e) \<Rightarrow> Raised e
      | Done (Inr (result, is_cache_hit, missing_metrics)) \<Rightarrow>
          Returned (ResultTuple result is_cache_hit missing_metrics, False, []))"

text \<open>
  \<open>analyze_country\<close> has no suspension point before its first \<open>await\<close>, so its
  beginning is one atomic step: the cache lookup, the in-flight check, and either the
  \<open>await\<close> on the registered task or the creation and registration of a new task.
\<close>

definition analyze_country_begin :: "string \<Rightarrow> string \<Rightarrow> string \<Rightarrow> bool \<Rightarrow> state \<Rightarrow> state" where
  "analyze_country_begin cc risk_tolerance duration debug_mode s =
     (let k = cache_key cc risk_tolerance duration
      in (case get_cached s k of
            Some cached_result \<Rightarrow> add_caller (Returned (cached_result, True, [])) s
          | None \<Rightarrow>
              (case get_in_flight s k of
                 Some t \<Rightarrow> add_caller (await_in_flight k t s) s
               | None \<Rightarrow>
                   set_in_flight k (length (tasks s))
                     (add_caller (AwaitingOwnTask k (length (tasks s)))
                        (s\<lparr>tasks := tasks s @
                             [\<lparr>task_country_code = cc, task_risk_tolerance = risk_tolerance,
                               task_duration = duration, task_debug_mode = debug_mode,
                               task_status = Pending\<rparr>]\<rparr>)))))"

text \<open>A pending task runs to its end in the environment \<open>env\<close>.\<close>

definition task_finish :: "(real \<Rightarrow> nat \<Rightarrow> real) \<Rightarrow> nat \<Rightarrow> pipeline_env \<Rightarrow> state \<Rightarrow> state" where
  "task_finish rf t env s =
     (if t < length (tasks s) \<and> task_status (tasks s ! t) = Pending
      then s\<lparr>tasks := (tasks s)[t := (tasks s ! t)\<lparr>task_status :=
                 Done (fetch_and_build rf (task_country_code (tasks s ! t))
                         (task_risk_tolerance (tasks s ! t)) (task_duration (tasks s ! t))
                         (task_debug_mode (tasks s ! t)) env)\<rparr>]\<rparr>
      else s)"

text \<open>
  A suspended call whose task is done continues to its end. The owner runs the rest of
  the \<open>try\<close> block and then \<open>finally\<close>; the waiter returns.
\<close>

definition analyze_country_resume :: "nat \<Rightarrow> state \<Rightarrow> state" where
  "analyze_country_resume i s =
     (if i < length (callers s) then
        (case callers s ! i of
           AwaitingOwnTask k t \<Rightarrow>
             (case status_of s t of
                Pending \<Rightarrow> s
              | Done (Inl e) \<Rightarrow> remove_in_flight k (set_caller i (Raised e) s)
              | Done (Inr (result, is_cache_hit, missing_metrics)) \<Rightarrow>
                  remove_in_flight k
                    (set_caller i (Returned (result, is_cache_hit, missing_metrics))
                       (set_cache k (Some result) s)))
         | AwaitingInFlight k t \<Rightarrow>
             (if status_of s t = Pending then s else set_caller i (await_in_flight k t s) s)
         | Returned r \<Rightarrow> s
         | Raised e \<Rightarrow> s)
      else s)"

fun awaits :: "caller \<Rightarrow> nat \<Rightarrow> bool" where
  "awaits (AwaitingOwnTask k t') t = (t' = t)"
| "awaits (AwaitingInFlight k t') t = (t' = t)"
| "awaits (Returned r) t = False"
| "awaits (Raised e) t = False"

text \<open>The callbacks of the finished task \<open>t\<close>: every call awaiting it resumes, in order.\<close>

definition wake_one :: "nat \<Rightarrow> state \<Rightarrow> nat \<Rightarrow> state" where
  "wake_one t s i = (if awaits (callers s ! i) t then analyze_country_resume i s else s)"

definition wakeup :: "nat \<Rightarrow> state \<Rightarrow> state" where
  "wakeup t s =
     (if status_of s t = Pending then s
      else foldl (wake_one t) s [0..<length (callers s)])"

text \<open>
  What can happen next: a call of \<open>analyze_country\<close> begins, a pending task finishes in
  some environment, the calls awaiting a finished task are woken, or time passes. The
  parameter \<open>rf\<close> is the rounding used by the pipelines.
\<close>

datatype event =
    Call string string string bool
  | Finish nat pipeline_env
  | Wakeup nat
  | Tick real

fun step :: "(real \<Rightarrow> nat \<Rightarrow> real) \<Rightarrow> event \<Rightarrow> state \<Rightarrow> state" where
  "step rf (Call cc risk_tolerance duration debug_mode) s =
     analyze_country_begin cc risk_tolerance duration debug_mode s"
| "step rf (Finish t env) s = task_finish rf t env s"
| "step rf (Wakeup t) s = wakeup t s"
| "step rf (Tick dt) s = (if 0 \<le> dt then s\<lparr>clock := clock s + dt\<rparr> else s)"

definition run :: "(real \<Rightarrow> nat \<Rightarrow> real) \<Rightarrow> event list \<Rightarrow> state \<Rightarrow> state" where
  "run rf es s = foldl (\<lambda>s e. step rf e s) s es"

text \<open>The number of fetch pipeline executions started so far for a cache key.\<close>

definition pipelines :: "string \<Rightarrow> state \<Rightarrow> nat" where
  "pipelines k s = length (filter (\<lambda>t. task_key t = k) (tasks s))"

section \<open>The alternate normalization module (utils/normalizer.py)\<close>

text \<open>
  The module defines \<open>_normalize_life_expectancy\<close>, \<open>_normalize_gdp_per_capita\<close>,
  \<open>_normalize_population\<close>, \<open>_normalize_pm25\<close> and \<open>_normalize_temperature\<close> with the
  same bodies as the aggregator, and its own versions of the two functions below. It
  defines no \<open>_normalize_pm10\<close> and imports only names of \<open>typing\<close>.
\<close>

definition normalizer_normalize_travel_advisory_score :: "real option \<Rightarrow> real" where
  "normalizer_normalize_travel_advisory_score value =
     (case value of None \<Rightarrow> 0.5 | Some v \<Rightarrow> 1 - v / 5)"

definition normalizer_normalize_humidity :: "real option \<Rightarrow> real" where
  "normalizer_normalize_humidity value =
     (case value of None \<Rightarrow> 0.5
      | Some v \<Rightarrow>
          if 30 \<le> v \<and> v \<le> 70 then 1
          else if v < 30 then max 0 (v / 30)
          else max 0 (1 - (v - 70) / 30))"

text \<open>
  A module's global namespace, restricted to its normalization functions: a name is
  bound to a function or not bound at all.
\<close>

type_synonym namespace = "string \<rightharpoonup> (real option \<Rightarrow> real)"

definition normalizer_globals :: namespace where
  "normalizer_globals = map_of
     [(''_normalize_life_expectancy'', normalize_life_expectancy),
      (''_normalize_gdp_per_capita'', normalize_gdp_per_capita),
      (''_normalize_population'', normalize_population),
      (''_normalize_pm25'', normalize_pm25),
      (''_normalize_travel_advisory_score'', normalizer_normalize_travel_advisory_score),
      (''_normalize_temperature'', normalize_temperature),
      (''_normalize_humidity'', normalizer_normalize_humidity)]"

definition aggregator_globals :: namespace where
  "aggregator_globals = map_of
     [(''_normalize_life_expectancy'', normalize_life_expectancy),
      (''_normalize_gdp_per_capita'', normalize_gdp_per_capita),
      (''_normalize_population'', normalize_population),
      (''_normalize_pm25'', normalize_pm25),
      (''_normalize_pm10'', normalize_pm10),
      (''_normalize_travel_advisory_score'', normalize_travel_advisory_score),
      (''_normalize_temperature'', normalize_temperature),
      (''_normalize_humidity'', normalize_humidity)]"

text \<open>
  The body of \<open>normalize_metrics\<close>, the same eight statements in both modules:
  \<open>normalized[key] = f(metrics.get(key))\<close>, where the global name \<open>f\<close> is looked up
  when the statement runs and an unbound name raises \<open>NameError\<close>.
\<close>

definition normalize_statements :: "(string \<times> string) list" where
  "normalize_statements =
     [(''life_expectancy'', ''_normalize_life_expectancy''),
      (''gdp_per_capita'', ''_normalize_gdp_per_capita''),
      (''population'', ''_normalize_population''),
      (''pm25'', ''_normalize_pm25''),
      (''pm10'', ''_normalize_pm10''),
      (''travel_advisory_score'', ''_normalize_travel_advisory_score''),
      (''temperature'', ''_normalize_temperature''),
      (''humidity'', ''_normalize_humidity'')]"

fun run_statements ::
  "namespace \<Rightarrow> (real option) dict \<Rightarrow> real dict \<Rightarrow> (string \<times> string) list \<Rightarrow>
   py_error + real dict" where
  "run_statements globals metrics normalized [] = Inr normalized"
| "run_statements globals metrics normalized ((key, f) # rest) =
     (case globals f of
        None \<Rightarrow> Inl (NameError f)
      | Some fn \<Rightarrow>
          run_statements globals metrics
            (dict_set normalized (key, fn (opt_get metrics key))) rest)"

definition normalizer_normalize_metrics :: "(real option) dict \<Rightarrow> py_error + real dict" where
  "normalizer_normalize_metrics metrics =
     run_statements normalizer_globals metrics [] normalize_statements"

definition aggregator_normalize_metrics :: "(real option) dict \<Rightarrow> py_error + real dict" where
  "aggregator_normalize_metrics metrics =
     run_statements aggregator_globals metrics [] normalize_statements"

section \<open>Sample inputs and projections used in the statements\<close>

definition france :: country_profile where
  "france = \<lparr>profile_country_name = Some ''France'', profile_iso2 = Some ''FR'',
     profile_lat = Some 46, profile_lon = Some 2, profile_population = Some 67500000\<rparr>"

text \<open>The identity fetch succeeds and the four provider fetches fail.\<close>

definition providers_down :: "country_profile \<Rightarrow> pipeline_env" where
  "providers_down p = Responds (Some p) Exception Exception Exception Exception"

definition overall_of :: "py_error + outcome \<Rightarrow> real option" where
  "overall_of r =
     (case r of
        Inr (ResultDict d, h, m) \<Rightarrow> Some (overall_score d)
      | _ \<Rightarrow> None)"

definition missing_of_outcome :: "py_error + outcome \<Rightarrow> string list" where
  "missing_of_outcome r = (case r of Inr (v, h, m) \<Rightarrow> m | Inl e \<Rightarrow> [])"

text \<open>The profile passes the identity check: its ISO2 code is a non-empty string.\<close>

definition has_identity :: "country_profile \<Rightarrow> bool" where
  "has_identity p = (profile_iso2 p \<noteq> None \<and> profile_iso2 p \<noteq> Some [])"

definition seven_missing :: "string list" where
  "seven_missing = [''life_expectancy'', ''gdp_per_capita'', ''travel_advisory_score'',
     ''temperature'', ''pm25'', ''pm10'', ''humidity'']"

section \<open>Ranges of the raw values\<close>

definition nonneg_opt :: "real option \<Rightarrow> bool" where
  "nonneg_opt value = (case value of None \<Rightarrow> True | Some v \<Rightarrow> 0 \<le> v)"

text \<open>
  The ranges the providers' quantities have by nature: GDP per capita, population and the
  air-quality index are not negative, and the travel advisory score lies between 0 and 100.
\<close>

definition raw_in_range :: "(real option) dict \<Rightarrow> bool" where
  "raw_in_range metrics =
     (nonneg_opt (opt_get metrics ''gdp_per_capita'') \<and>
      nonneg_opt (opt_get metrics ''population'') \<and>
      nonneg_opt (opt_get metrics ''pm25'') \<and>
      nonneg_opt (opt_get metrics ''pm10'') \<and>
      (case opt_get metrics ''travel_advisory_score'' of
         None \<Rightarrow> True
       | Some v \<Rightarrow> 0 \<le> v \<and> v \<le> 100))"

definition all_in_unit :: "real dict \<Rightarrow> bool" where
  "all_in_unit normalized = list_all (\<lambda>(k, v). 0 \<le> v \<and> v \<le> 1) normalized"

definition sample_raw :: "(real option) dict" where
  "sample_raw =
     [(''life_expectancy'', Some 82.5), (''gdp_per_capita'', Some 44000),
      (''population'', Some 67500000), (''pm25'', Some 42), (''pm10'', Some 42),
      (''travel_advisory_score'', Some 50), (''temperature'', Some 12),
      (''humidity'', None)]"

text \<open>Raw metrics with a travel advisory score of 125 (an advisory level of 5).\<close>

definition out_of_range_raw :: "(real option) dict" where
  "out_of_range_raw =
     [(''life_expectancy'', None), (''gdp_per_capita'', None),
      (''population'', Some 67500000), (''pm25'', None), (''pm10'', None),
      (''travel_advisory_score'', Some 125), (''temperature'', None),
      (''humidity'', None)]"

section \<open>Invariants of the in-flight registry\<close>

text \<open>
  A call suspended on the task it created is registered under its key, the key has no
  live cache entry, and the task exists and carries that key.
\<close>

definition owners_registered :: "state \<Rightarrow> bool" where
  "owners_registered s =
     (\<forall>i k t. i < length (callers s) \<and> callers s ! i = AwaitingOwnTask k t \<longrightarrow>
        in_flight_requests s k = Some t \<and> get_cached s k = None \<and>
        t < length (tasks s) \<and> task_key (tasks s ! t) = k)"

text \<open>No two suspended calls own a task for the same key.\<close>

definition owners_distinct :: "state \<Rightarrow> bool" where
  "owners_distinct s =
     (\<forall>i j k t t'. i < length (callers s) \<and> j < length (callers s) \<and>
        callers s ! i = AwaitingOwnTask k t \<and> callers s ! j = AwaitingOwnTask k t' \<longrightarrow> i = j)"

text \<open>Every pending task is the one registered under its key.\<close>

definition pending_registered :: "state \<Rightarrow> bool" where
  "pending_registered s =
     (\<forall>t. t < length (tasks s) \<and> task_status (tasks s ! t) = Pending \<longrightarrow>
        in_flight_requests s (task_key (tasks s ! t)) = Some t)"

text \<open>
  A call suspended on another call's task is suspended on the task registered under its
  key, and the key has no live cache entry. While the calls awaiting the finished task
  \<open>w\<close> are being woken, the waiters of \<open>w\<close> are exempt.
\<close>

definition waiters_registered :: "nat option \<Rightarrow> state \<Rightarrow> bool" where
  "waiters_registered w s =
     (\<forall>i k t. i < length (callers s) \<and> callers s ! i = AwaitingInFlight k t \<and> Some t \<noteq> w \<longrightarrow>
        in_flight_requests s k = Some t \<and> get_cached s k = None)"

definition registry_inv :: "nat option \<Rightarrow> state \<Rightarrow> bool" where
  "registry_inv w s =
     (owners_registered s \<and> owners_distinct s \<and> pending_registered s \<and>
      waiters_registered w s)"

text \<open>
  The third branch of \<open>analyze_country_begin\<close> written as one record update: the state
  after the first call for a key that is neither cached nor in flight.
\<close>

definition start_task :: "string \<Rightarrow> string \<Rightarrow> string \<Rightarrow> bool \<Rightarrow> state \<Rightarrow> state" where
  "start_task cc rt dur dbg s =
     s\<lparr>tasks := tasks s @ [\<lparr>task_country_code = cc, task_risk_tolerance = rt,
                               task_duration = dur, task_debug_mode = dbg,
                               task_status = Pending\<rparr>],
       callers := callers s @ [AwaitingOwnTask (cache_key cc rt dur) (length (tasks s))],
       in_flight_requests := (in_flight_requests s)(cache_key cc rt dur \<mapsto> length (tasks s))\<rparr>"

text \<open>The call is suspended, for the key \<open>k\<close>, on the task \<open>t\<close>.\<close>

definition suspended_on :: "caller \<Rightarrow> string \<Rightarrow> nat \<Rightarrow> bool" where
  "suspended_on c k t = (c = AwaitingOwnTask k t \<or> c = AwaitingInFlight k t)"

text \<open>Any two pending tasks with the same cache key are the same task.\<close>

definition one_pending_per_key :: "state \<Rightarrow> bool" where
  "one_pending_per_key s =
     (\<forall>u v. u < length (tasks s) \<and> v < length (tasks s) \<and>
        task_status (tasks s ! u) = Pending \<and> task_status (tasks s ! v) = Pending \<and>
        task_key (tasks s ! u) = task_key (tasks s ! v) \<longrightarrow> u = v)"

text \<open>
  The state one second after a first call for France, low tolerance, short term: the call
  is suspended on task 0.
\<close>

definition first_call_pending :: state where
  "first_call_pending =
     \<lparr>country_cache = [],
      in_flight_requests = [''FRA_low_short-term'' \<mapsto> 0],
      tasks = [\<lparr>task_country_code = ''FRA'', task_risk_tolerance = ''low'',
                task_duration = ''short-term'', task_debug_mode = False,
                task_status = Pending\<rparr>],
      callers = [AwaitingOwnTask ''FRA_low_short-term'' 0], clock = 1\<rparr>"

section \<open>Further invariants, environments and sample values\<close>


text \<open>What the pipeline builds for France when the four providers are down.\<close>

definition france_result :: analysis_result where
  "france_result =
     \<lparr>country_code = ''FRA'', country_name = Some ''France'', overall_score = 409 / 10,
      result_sub_scores = \<lparr>travel_risk = 80, health_infra = 50, env_stability = 50\<rparr>,
      result_explanation = Explanation (409 / 10) ''low'' ''short-term'' 80 50 50,
      result_debug_analysis = None\<rparr>"

definition france_missing :: "string list" where
  "france_missing = [''life_expectancy'', ''gdp_per_capita'', ''pm25'', ''pm10'',
     ''travel_advisory_score'', ''temperature'', ''humidity'']"

text \<open>
  Two calls for the same key begin before the task of the first finishes, as when a
  request names a country twice; then the task finishes and its callers are woken.
\<close>

definition duplicate_request :: "event list" where
  "duplicate_request =
     [Call ''FRA'' ''low'' ''short-term'' False, Call ''FRA'' ''low'' ''short-term'' False,
      Finish 0 (providers_down france), Wakeup 0]"

text \<open>
  What \<open>fetch_country_profile\<close> returns when the REST Countries request fails or finds no
  country: the country code as the name, the coordinates 0 and no ISO2 code.
\<close>

definition profile_unavailable :: "string \<Rightarrow> country_profile" where
  "profile_unavailable cc =
     \<lparr>profile_country_name = Some cc, profile_iso2 = None, profile_lat = Some 0,
      profile_lon = Some 0, profile_population = None\<rparr>"

text \<open>
  A call for France while REST Countries cannot be reached, run to its end, and a second
  call a minute later.
\<close>

definition identity_failure_request :: "event list" where
  "identity_failure_request =
     [Call ''FRA'' ''low'' ''short-term'' False,
      Finish 0 (providers_down (profile_unavailable ''FRA'')), Wakeup 0,
      Tick 60, Call ''FRA'' ''low'' ''short-term'' False]"

text \<open>The same two calls when the pipeline of the first is left by an exception.\<close>

definition pipeline_raises_request :: "event list" where
  "pipeline_raises_request =
     [Call ''FRA'' ''low'' ''short-term'' False,
      Finish 0 (Escapes (OtherError ''ConnectError'')), Wakeup 0,
      Tick 60, Call ''FRA'' ''low'' ''short-term'' False]"

text \<open>
  The number of wake-ups in a sequence of events. A wake-up stores at most one result in
  the cache (that of the call owning the finished task), so this bounds the number of
  results stored.
\<close>

fun is_wakeup :: "event \<Rightarrow> bool" where
  "is_wakeup (Wakeup t) = True"
| "is_wakeup (Call cc risk_tolerance duration debug_mode) = False"
| "is_wakeup (Finish t env) = False"
| "is_wakeup (Tick dt) = False"

definition wakeups :: "event list \<Rightarrow> nat" where
  "wakeups es = length (filter is_wakeup es)"







section \<open>Normalization: table and range\<close>

lemma normalize_life_expectancy_unit:
  "0 \<le> normalize_life_expectancy value \<and> normalize_life_expectancy value \<le> 1"
  by (simp add: normalize_life_expectancy_def split: option.split)

lemma normalize_temperature_unit:
  "0 \<le> normalize_temperature value \<and> normalize_temperature value \<le> 1"
  by (simp add: normalize_temperature_def split: option.split)

lemma normalize_humidity_unit:
  "0 \<le> normalize_humidity value \<and> normalize_humidity value \<le> 1"
  by (simp add: normalize_humidity_def split: option.split)

lemma normalize_gdp_per_capita_unit:
  "nonneg_opt value \<Longrightarrow>
   0 \<le> normalize_gdp_per_capita value \<and> normalize_gdp_per_capita value \<le> 1"
  by (cases "value") (simp_all add: normalize_gdp_per_capita_def nonneg_opt_def)

lemma normalize_population_unit:
  "nonneg_opt value \<Longrightarrow>
   0 \<le> normalize_population value \<and> normalize_population value \<le> 1"
  by (cases "value") (simp_all add: normalize_population_def nonneg_opt_def)

lemma normalize_pm25_unit:
  "nonneg_opt value \<Longrightarrow> 0 \<le> normalize_pm25 value \<and> normalize_pm25 value \<le> 1"
  by (cases "value") (simp_all add: normalize_pm25_def nonneg_opt_def)

lemma normalize_pm10_unit:
  "nonneg_opt value \<Longrightarrow> 0 \<le> normalize_pm10 value \<and> normalize_pm10 value \<le> 1"
  by (cases "value") (simp_all add: normalize_pm10_def nonneg_opt_def)

lemma normalize_travel_advisory_score_unit:
  "(case value of None \<Rightarrow> True | Some v \<Rightarrow> 0 \<le> v \<and> v \<le> 100) \<Longrightarrow>
   0 \<le> normalize_travel_advisory_score value \<and> normalize_travel_advisory_score value \<le> 1"
  by (cases "value") (simp_all add: normalize_travel_advisory_score_def)

text \<open>
  Claim C4. The active normalization functions reproduce the table of the specification:
  for each of the eight metrics an absent value gives the metric's fallback constant
  (0.2 for the travel advisory score and 0.5 for the others), a present value gives the
  table's formula, and for the temperature 21.5 gives 1, while 0 and 40 give 0.
\<close>

theorem normalization_table:
  "normalize_one ''life_expectancy'' None = Some (spec_fallback ''life_expectancy'') \<and>
   normalize_one ''gdp_per_capita'' None = Some (spec_fallback ''gdp_per_capita'') \<and>
   normalize_one ''population'' None = Some (spec_fallback ''population'') \<and>
   normalize_one ''pm25'' None = Some (spec_fallback ''pm25'') \<and>
   normalize_one ''pm10'' None = Some (spec_fallback ''pm10'') \<and>
   normalize_one ''travel_advisory_score'' None
     = Some (spec_fallback ''travel_advisory_score'') \<and>
   normalize_one ''temperature'' None = Some (spec_fallback ''temperature'') \<and>
   normalize_one ''humidity'' None = Some (spec_fallback ''humidity'') \<and>
   normalize_one ''travel_advisory_score'' None = Some 0.2 \<and>
   normalize_one ''life_expectancy'' None = Some 0.5 \<and>
   normalize_one ''temperature'' (Some 21.5) = Some 1 \<and>
   normalize_one ''temperature'' (Some 0) = Some 0 \<and>
   normalize_one ''temperature'' (Some 40) = Some 0 \<and>
   normalize_one ''life_expectancy'' (Some v) = Some (max 0 (min 1 ((v - 50) / 35))) \<and>
   normalize_one ''gdp_per_capita'' (Some v) = Some (min (v / 80000) 1) \<and>
   normalize_one ''population'' (Some v) = Some (1 - min (v / 1500000000) 1) \<and>
   normalize_one ''pm25'' (Some v) = Some (1 - min (v / 100) 1) \<and>
   normalize_one ''pm10'' (Some v) = Some (1 - min (v / 100) 1) \<and>
   normalize_one ''travel_advisory_score'' (Some v) = Some (1 - v / 100) \<and>
   normalize_one ''temperature'' (Some v) =
     Some (if 15 \<le> v \<and> v \<le> 28 then 1
           else if v < 15 then max 0 (1 - (15 - v) / 15)
           else max 0 (1 - (v - 28) / 12)) \<and>
   normalize_one ''humidity'' (Some v) = Some 0.5"
  by (simp add: normalize_one_def normalize_metrics_def opt_get_def spec_fallback_def
      normalize_life_expectancy_def normalize_gdp_per_capita_def normalize_population_def
      normalize_pm25_def normalize_pm10_def normalize_travel_advisory_score_def
      normalize_temperature_def normalize_humidity_def)

text \<open>
  Claim C8, as stated: whatever the raw values, every normalized value lies in \<open>[0,1]\<close>.
  It fails: a travel advisory score of 125 is normalized to \<open>1 - 125 / 100 = -0.25\<close>.
\<close>

theorem normalized_out_of_unit_interval:
  "\<not> all_in_unit (normalize_metrics out_of_range_raw)"
  by (simp add: all_in_unit_def normalize_metrics_def opt_get_def out_of_range_raw_def
      normalize_travel_advisory_score_def)

text \<open>
  Claim C8, amended: when the raw GDP per capita, population, pm25 and pm10 are absent or
  not negative and the raw travel advisory score is absent or between 0 and 100, every
  value of the normalized mapping lies in \<open>[0,1]\<close>; life expectancy, temperature and
  humidity may be any number.
\<close>

theorem normalized_in_unit_interval:
  assumes "raw_in_range metrics"
  shows "all_in_unit (normalize_metrics metrics)"
  using assms
  unfolding raw_in_range_def all_in_unit_def normalize_metrics_def
  by (simp add: normalize_life_expectancy_unit normalize_temperature_unit
      normalize_humidity_unit normalize_gdp_per_capita_unit normalize_population_unit
      normalize_pm25_unit normalize_pm10_unit normalize_travel_advisory_score_unit)

theorem normalized_in_unit_interval_witness:
  "raw_in_range sample_raw \<and> all_in_unit (normalize_metrics sample_raw)"
proof -
  have h: "raw_in_range sample_raw"
    by (simp add: raw_in_range_def sample_raw_def opt_get_def nonneg_opt_def)
  show ?thesis using h normalized_in_unit_interval [OF h] by simp
qed

section \<open>Weights\<close>

lemma sum_list_scaled:
  "sum_list (map snd (map (\<lambda>(k, v). (k, v / t)) w)) = sum_list (map snd w) / (t::real)"
  by (induction w) (auto simp: add_divide_distrib)

text \<open>In exact arithmetic the renormalized weights sum to exactly 1.\<close>

lemma get_weights_sum: "sum_list (map snd (get_weights risk_tolerance duration)) = 1"
  unfolding get_weights_def get_weights_with_def adjusted_weights_def Let_def
  by (simp add: sum_list_scaled)
     (simp add: literals_def base_weights_def low_table_def high_table_def
        short_term_multipliers_def long_term_multipliers_def dict_scale_def)

lemma u_bounds: "0 < unit_roundoff" "unit_roundoff < 1"
  by (simp_all add: unit_roundoff_def)

lemma accurate_bounds:
  assumes "accurate rnd" "0 \<le> x"
  shows "(1 - unit_roundoff) * x \<le> rnd x" "rnd x \<le> (1 + unit_roundoff) * x"
  using assms(2) assms(1) [unfolded accurate_def, rule_format, of x]
  by (simp_all add: algebra_simps abs_le_iff)

lemma accurate_nonneg: "accurate rnd \<Longrightarrow> 0 \<le> x \<Longrightarrow> 0 \<le> rnd x"
  using accurate_bounds(1) [of rnd x] u_bounds
  by (meson diff_ge_0_iff_ge less_imp_le mult_nonneg_nonneg order_trans)

lemma accurate_pos: "accurate rnd \<Longrightarrow> 0 < x \<Longrightarrow> 0 < rnd x"
  using accurate_bounds(1) [of rnd x] u_bounds
  by (smt (verit) mult_pos_pos)

lemma adjusted_weights_ok:
  assumes a: "accurate rnd"
  shows "length (adjusted_weights rnd rt dur) = 7 \<and>
         (\<forall>x \<in> set (map snd (adjusted_weights rnd rt dur)). 0 \<le> x) \<and>
         0 < snd (hd (adjusted_weights rnd rt dur))"
  unfolding adjusted_weights_def Let_def
  by (simp add: literals_def base_weights_def low_table_def high_table_def
      short_term_multipliers_def long_term_multipliers_def dict_scale_def
      accurate_nonneg [OF a] accurate_pos [OF a])

lemma sum_list_rounded_quotients:
  assumes a: "accurate rnd" and nn: "\<forall>x \<in> set ws. 0 \<le> x" and t: "0 < t"
  shows "(1 - unit_roundoff) * (sum_list ws / t) \<le> sum_list (map (\<lambda>v. rnd (v / t)) ws) \<and>
         sum_list (map (\<lambda>v. rnd (v / t)) ws) \<le> (1 + unit_roundoff) * (sum_list ws / t)"
  using nn
proof (induction ws)
  case Nil
  show ?case by simp
next
  case (Cons w ws)
  have q: "0 \<le> w / t" using Cons.prems t by simp
  note B = accurate_bounds [OF a q]
  have IH: "(1 - unit_roundoff) * (sum_list ws / t) \<le> sum_list (map (\<lambda>v. rnd (v / t)) ws)"
    "sum_list (map (\<lambda>v. rnd (v / t)) ws) \<le> (1 + unit_roundoff) * (sum_list ws / t)"
    using Cons by simp_all
  show ?case using B IH by (simp add: add_divide_distrib algebra_simps)
qed

lemma normalised_sum_close:
  assumes a: "accurate rnd" and s: "sum_accurate fsum"
    and nn: "\<forall>x \<in> set ws. 0 \<le> x" and pos: "0 < sum_list ws"
  shows "0 < fsum ws \<and>
     (1 - unit_roundoff) ^ Suc (length ws) / (1 + unit_roundoff) ^ length ws
       \<le> fsum (map (\<lambda>v. rnd (v / fsum ws)) ws) \<and>
     fsum (map (\<lambda>v. rnd (v / fsum ws)) ws)
       \<le> (1 + unit_roundoff) ^ Suc (length ws) / (1 - unit_roundoff) ^ length ws"
proof -
  let ?u = unit_roundoff
  let ?n = "length ws"
  let ?T = "fsum ws"
  let ?ns = "map (\<lambda>v. rnd (v / ?T)) ws"
  let ?r = "sum_list ws / ?T"
  have lo_pos: "0 < (1 - ?u) ^ ?n" and hi_pos: "0 < (1 + ?u) ^ ?n"
    using u_bounds by simp_all
  have T: "(1 - ?u) ^ ?n * sum_list ws \<le> ?T" "?T \<le> (1 + ?u) ^ ?n * sum_list ws"
    using s nn unfolding sum_accurate_def by blast+
  have Tpos: "0 < ?T"
    using T(1) lo_pos pos by (meson less_le_trans mult_pos_pos)
  have r_lo: "1 / (1 + ?u) ^ ?n \<le> ?r"
    using T(2) Tpos hi_pos by (simp add: field_simps)
  have r_hi: "?r \<le> 1 / (1 - ?u) ^ ?n"
    using T(1) Tpos lo_pos by (simp add: field_simps)
  have nsnn: "\<forall>x \<in> set ?ns. 0 \<le> x"
    using nn Tpos accurate_nonneg [OF a] by auto
  have N: "(1 - ?u) * ?r \<le> sum_list ?ns" "sum_list ?ns \<le> (1 + ?u) * ?r"
    using sum_list_rounded_quotients [OF a nn Tpos] by simp_all
  have S: "(1 - ?u) ^ ?n * sum_list ?ns \<le> fsum ?ns" "fsum ?ns \<le> (1 + ?u) ^ ?n * sum_list ?ns"
    using s nsnn unfolding sum_accurate_def by (metis length_map)+
  have u1: "0 \<le> 1 - ?u" "0 \<le> 1 + ?u" using u_bounds by simp_all
  have "(1 - ?u) ^ Suc ?n / (1 + ?u) ^ ?n = (1 - ?u) ^ ?n * ((1 - ?u) * (1 / (1 + ?u) ^ ?n))"
    by simp
  also have "\<dots> \<le> (1 - ?u) ^ ?n * ((1 - ?u) * ?r)"
    using r_lo u1 lo_pos by (intro mult_left_mono) simp_all
  also have "\<dots> \<le> (1 - ?u) ^ ?n * sum_list ?ns"
    using N(1) lo_pos by (intro mult_left_mono) simp_all
  also have "\<dots> \<le> fsum ?ns" by (rule S(1))
  finally have lower: "(1 - ?u) ^ Suc ?n / (1 + ?u) ^ ?n \<le> fsum ?ns" .
  have "fsum ?ns \<le> (1 + ?u) ^ ?n * sum_list ?ns" by (rule S(2))
  also have "\<dots> \<le> (1 + ?u) ^ ?n * ((1 + ?u) * ?r)"
    using N(2) hi_pos by (intro mult_left_mono) simp_all
  also have "\<dots> \<le> (1 + ?u) ^ ?n * ((1 + ?u) * (1 / (1 - ?u) ^ ?n))"
    using r_hi u1 hi_pos by (intro mult_left_mono) simp_all
  also have "\<dots> = (1 + ?u) ^ Suc ?n / (1 - ?u) ^ ?n" by simp
  finally have upper: "fsum ?ns \<le> (1 + ?u) ^ Suc ?n / (1 - ?u) ^ ?n" .
  show ?thesis using Tpos lower upper by simp
qed

lemma roundoff_margin:
  "1 - 1 / 10 ^ 9 \<le> (1 - unit_roundoff) ^ Suc 7 / (1 + unit_roundoff) ^ 7"
  "(1 + unit_roundoff) ^ Suc 7 / (1 - unit_roundoff) ^ 7 \<le> 1 + 1 / 10 ^ 9"
  by (simp_all add: unit_roundoff_def power_divide field_simps)

lemma map_snd_renormalised:
  "map snd (map (\<lambda>(k, v). (k, f v)) w) = map f (map snd w)"
  by (induction w) auto

lemma abs_close: "1 - e \<le> x \<Longrightarrow> x \<le> 1 + e \<Longrightarrow> \<bar>x - 1\<bar> \<le> (e::real)"
  by linarith

text \<open>
  Claim C2. For every risk tolerance and duration (the six valid pairs among them), the
  values of the mapping returned by \<open>get_weights\<close> sum to 1.0 within \<open>1e-9\<close>, in
  floating-point arithmetic: whatever the roundings of the literals, products, quotients
  and sums, as long as each has a relative error of at most \<open>2 ^ -53\<close>.
\<close>

theorem weights_sum_to_one:
  assumes "accurate rnd" and "sum_accurate fsum"
  shows "\<bar>fsum (map snd (get_weights_with rnd fsum risk_tolerance duration)) - 1\<bar> \<le> 1 / 10 ^ 9"
proof -
  let ?w = "adjusted_weights rnd risk_tolerance duration"
  let ?ws = "map snd ?w"
  note A = adjusted_weights_ok [OF assms(1), of risk_tolerance duration]
  have len: "length ?ws = 7" and nn: "\<forall>x \<in> set ?ws. 0 \<le> x" using A by simp_all
  have "?w \<noteq> []" using A by auto
  then obtain k v rest where w: "?w = (k, v) # rest" by (cases ?w) auto
  have "0 < v" using A w by simp
  moreover have "0 \<le> sum_list (map snd rest)"
    using nn w by (intro sum_list_nonneg) auto
  ultimately have pos: "0 < sum_list ?ws" using w by simp
  note C = normalised_sum_close [OF assms nn pos, unfolded len]
  let ?ns = "map (\<lambda>v. rnd (v / fsum ?ws)) ?ws"
  from C have Tpos: "0 < fsum ?ws"
    and c2: "(1 - unit_roundoff) ^ Suc 7 / (1 + unit_roundoff) ^ 7 \<le> fsum ?ns"
    and c3: "fsum ?ns \<le> (1 + unit_roundoff) ^ Suc 7 / (1 - unit_roundoff) ^ 7"
    by blast+
  have eq: "map snd (get_weights_with rnd fsum risk_tolerance duration) = ?ns"
    unfolding get_weights_with_def Let_def
    by (simp only: Tpos if_True map_snd_renormalised)
  have "1 - 1 / 10 ^ 9 \<le> fsum ?ns"
    using roundoff_margin(1) c2 by (rule order_trans)
  moreover have "fsum ?ns \<le> 1 + 1 / 10 ^ 9"
    using c3 roundoff_margin(2) by (rule order_trans)
  ultimately show ?thesis
    unfolding eq by (rule abs_close)
qed

lemma exact_accurate: "accurate (\<lambda>x. x)"
  by (simp add: accurate_def unit_roundoff_def)

lemma exact_sum_accurate: "sum_accurate sum_list"
  unfolding sum_accurate_def
proof (intro allI impI)
  fix xs :: "real list"
  assume "\<forall>x \<in> set xs. 0 \<le> x"
  then have s: "0 \<le> sum_list xs" by (intro sum_list_nonneg) simp
  have "(1 - unit_roundoff) ^ length xs \<le> 1"
    using u_bounds by (intro power_le_one) simp_all
  moreover have "1 \<le> (1 + unit_roundoff) ^ length xs"
    using u_bounds by (intro one_le_power) simp
  ultimately show "(1 - unit_roundoff) ^ length xs * sum_list xs \<le> sum_list xs \<and>
        sum_list xs \<le> (1 + unit_roundoff) ^ length xs * sum_list xs"
    using s by (simp add: mult_left_le_one_le mult_le_cancel_right1 mult_le_cancel_right2)
qed

text \<open>Left-to-right summation with accurate roundings is an accurate summation.\<close>

lemma left_to_right_sum_bounds:
  assumes a: "accurate rnd" and nn: "\<forall>x \<in> set xs. 0 \<le> x" and acc: "0 \<le> acc"
  shows "(1 - unit_roundoff) ^ length xs * (acc + sum_list xs)
           \<le> foldl (\<lambda>acc x. rnd (acc + x)) acc xs \<and>
         foldl (\<lambda>acc x. rnd (acc + x)) acc xs
           \<le> (1 + unit_roundoff) ^ length xs * (acc + sum_list xs)"
  using nn acc
proof (induction xs arbitrary: acc)
  case Nil
  show ?case by simp
next
  case (Cons x xs)
  let ?u = unit_roundoff
  let ?n = "length xs"
  let ?a = "rnd (acc + x)"
  have ax: "0 \<le> acc + x" using Cons.prems by simp
  note B = accurate_bounds [OF a ax]
  have a0: "0 \<le> ?a" using accurate_nonneg [OF a ax] .
  have nn': "\<forall>x \<in> set xs. 0 \<le> x" using Cons.prems by simp
  then have s0: "0 \<le> sum_list xs" by (intro sum_list_nonneg) simp
  note IH = Cons.IH [OF nn' a0]
  have lo_pos: "0 \<le> (1 - ?u) ^ ?n" and hi_pos: "0 \<le> (1 + ?u) ^ ?n"
    using u_bounds by simp_all
  have us: "0 \<le> ?u * sum_list xs" using s0 u_bounds by simp
  have "(1 - ?u) * (acc + x + sum_list xs) \<le> ?a + sum_list xs"
    using B(1) us by (simp add: algebra_simps)
  then have "(1 - ?u) ^ ?n * ((1 - ?u) * (acc + x + sum_list xs))
      \<le> (1 - ?u) ^ ?n * (?a + sum_list xs)"
    using lo_pos by (rule mult_left_mono)
  then have lower: "(1 - ?u) ^ Suc ?n * (acc + x + sum_list xs)
      \<le> foldl (\<lambda>acc x. rnd (acc + x)) ?a xs"
    using IH by (simp add: mult.assoc mult.left_commute)
  have "?a + sum_list xs \<le> (1 + ?u) * (acc + x + sum_list xs)"
    using B(2) us by (simp add: algebra_simps)
  then have "(1 + ?u) ^ ?n * (?a + sum_list xs)
      \<le> (1 + ?u) ^ ?n * ((1 + ?u) * (acc + x + sum_list xs))"
    using hi_pos by (rule mult_left_mono)
  then have upper: "foldl (\<lambda>acc x. rnd (acc + x)) ?a xs
      \<le> (1 + ?u) ^ Suc ?n * (acc + x + sum_list xs)"
    using IH by (simp add: mult.assoc mult.left_commute)
  show ?case using lower upper by (simp add: add.assoc)
qed

lemma left_to_right_sum_accurate:
  "accurate rnd \<Longrightarrow> sum_accurate (left_to_right_sum rnd)"
  unfolding sum_accurate_def left_to_right_sum_def
  using left_to_right_sum_bounds [of rnd _ 0] by simp

theorem weights_sum_to_one_witness:
  "accurate (\<lambda>x. x) \<and> sum_accurate sum_list \<and>
   \<bar>sum_list (map snd (get_weights_with (\<lambda>x. x) sum_list ''low'' ''short-term'')) - 1\<bar>
     \<le> 1 / 10 ^ 9"
  using exact_accurate exact_sum_accurate
    weights_sum_to_one [OF exact_accurate exact_sum_accurate, of "''low''" "''short-term''"]
  by (simp only: simp_thms)

section \<open>The two normalization modules\<close>

text \<open>
  Claim C9. For every input mapping, \<open>normalize_metrics\<close> of utils/normalizer.py fails
  with a \<open>NameError\<close> for \<open>_normalize_pm10\<close>, a name the module does not bind, while
  the aggregator's copy of the same eight statements runs to the end and gives the
  normalized mapping.
\<close>

theorem normalizer_module_unusable:
  "normalizer_normalize_metrics metrics = Inl (NameError ''_normalize_pm10'') \<and>
   aggregator_normalize_metrics metrics = Inr (normalize_metrics metrics)"
  by (simp add: normalizer_normalize_metrics_def aggregator_normalize_metrics_def
      normalize_statements_def normalizer_globals_def aggregator_globals_def
      normalize_metrics_def)

section \<open>The air-quality metrics\<close>

text \<open>
  Claim C10. In every execution of the pipeline the raw pm25 and pm10 are both the
  \<open>aqi\<close> value of the air-quality fetch (a number or absent), so they are equal; their
  normalized values are equal; and the two air-quality terms of the environmental
  stability score coincide.
\<close>

theorem pm25_pm10_coincide:
  "(let raw_metrics = build_raw_metrics population world_bank_metrics_data
                        travel_advisory_data weather_data aqi_data;
        normalized_scores = normalize_metrics raw_metrics
    in opt_get raw_metrics ''pm25'' = opt_get aqi_data ''aqi'' \<and>
       opt_get raw_metrics ''pm10'' = opt_get aqi_data ''aqi'' \<and>
       opt_get raw_metrics ''pm25'' = opt_get raw_metrics ''pm10'' \<and>
       map_of normalized_scores ''pm25'' = map_of normalized_scores ''pm10'' \<and>
       get_default normalized_scores ''pm25'' 0.5 = get_default normalized_scores ''pm10'' 0.5 \<and>
       env_stability_score normalized_scores =
         (2 * get_default normalized_scores ''pm25'' 0.5
            + get_default normalized_scores ''temperature'' 0.5) / 3 * 100)"
  by (simp add: Let_def build_raw_metrics_def normalize_metrics_def opt_get_def
      get_default_def normalize_pm25_def normalize_pm10_def env_stability_score_def)

section \<open>Rounding\<close>

lemma round_half_even_close: "\<bar>of_int (round_half_even y) - y\<bar> \<le> 1 / 2"
proof -
  have "of_int \<lfloor>y\<rfloor> \<le> y" "y < of_int \<lfloor>y\<rfloor> + 1" by linarith+
  then show ?thesis by (auto simp: round_half_even_def Let_def)
qed

lemma round_slack_nonneg: "0 \<le> round_slack * (1 + \<bar>x\<bar>)"
  by (simp add: round_slack_def)

lemma rounds_decimal_round: "rounds decimal_round"
  unfolding rounds_def
proof (intro allI impI conjI)
  fix x :: real and n :: nat
  show "\<exists>k::int. decimal_round x n = of_int k / 10 ^ n"
    unfolding decimal_round_def by (rule exI) (rule refl)
  have p: "(0::real) < 10 ^ n" by simp
  have "\<bar>decimal_round x n - x\<bar> = \<bar>of_int (round_half_even (x * 10 ^ n)) - x * 10 ^ n\<bar> / 10 ^ n"
    unfolding decimal_round_def using p by (simp add: field_simps abs_divide)
  also have "\<dots> \<le> (1 / 2) / 10 ^ n"
    by (intro divide_right_mono round_half_even_close) simp
  also have "\<dots> = 1 / (2 * 10 ^ n)" by simp
  finally show "\<bar>decimal_round x n - x\<bar> \<le> 1 / (2 * 10 ^ n) + round_slack * (1 + \<bar>x\<bar>)"
    using round_slack_nonneg [of x] by linarith
qed

lemma rounds_upper:
  assumes r: "rounds rf" and n: "n \<le> 2"
    and x: "x + round_slack * (1 + \<bar>x\<bar>) < (of_int k + 1 / 2) / 10 ^ n"
  shows "rf x n \<le> of_int k / 10 ^ n"
proof -
  from r n obtain j :: int where j: "rf x n = of_int j / 10 ^ n"
    and e: "\<bar>rf x n - x\<bar> \<le> 1 / (2 * 10 ^ n) + round_slack * (1 + \<bar>x\<bar>)"
    unfolding rounds_def by blast
  have "rf x n < (of_int k + 1 / 2) / 10 ^ n + 1 / (2 * 10 ^ n)" using e x by linarith
  also have "\<dots> = (of_int k + 1) / 10 ^ n" by (simp add: field_simps)
  finally have "real_of_int j < of_int k + 1" unfolding j by (simp add: divide_less_cancel)
  then have "j \<le> k" by linarith
  then show ?thesis unfolding j by (simp add: divide_right_mono)
qed

lemma rounds_lower:
  assumes r: "rounds rf" and n: "n \<le> 2"
    and x: "(of_int k - 1 / 2) / 10 ^ n < x - round_slack * (1 + \<bar>x\<bar>)"
  shows "of_int k / 10 ^ n \<le> rf x n"
proof -
  from r n obtain j :: int where j: "rf x n = of_int j / 10 ^ n"
    and e: "\<bar>rf x n - x\<bar> \<le> 1 / (2 * 10 ^ n) + round_slack * (1 + \<bar>x\<bar>)"
    unfolding rounds_def by blast
  have "(of_int k - 1 / 2) / 10 ^ n - 1 / (2 * 10 ^ n) < rf x n" using e x by linarith
  moreover have "(of_int k - 1 / 2) / 10 ^ n - 1 / (2 * 10 ^ n) = (real_of_int k - 1) / 10 ^ n"
    by (simp add: field_simps)
  ultimately have "real_of_int k - 1 < of_int j" unfolding j by (simp add: divide_less_cancel)
  then have "k \<le> j" by linarith
  then show ?thesis unfolding j by (simp add: divide_right_mono)
qed

lemma rounds_eq:
  assumes r: "rounds rf" and n: "n \<le> 2"
    and x: "\<bar>of_int k / 10 ^ n - x\<bar> + round_slack * (1 + \<bar>x\<bar>) < 1 / (2 * 10 ^ n)"
  shows "rf x n = of_int k / 10 ^ n"
proof -
  have a: "(real_of_int k + 1 / 2) / 10 ^ n = of_int k / 10 ^ n + 1 / (2 * 10 ^ n)"
    by (simp add: field_simps)
  have b: "(real_of_int k - 1 / 2) / 10 ^ n = of_int k / 10 ^ n - 1 / (2 * 10 ^ n)"
    by (simp add: field_simps)
  have "rf x n \<le> of_int k / 10 ^ n"
    by (rule rounds_upper [OF r n]) (use x a in linarith)
  moreover have "of_int k / 10 ^ n \<le> rf x n"
    by (rule rounds_lower [OF r n]) (use x b in linarith)
  ultimately show ?thesis by simp
qed

section \<open>The score when every provider is down\<close>

lemma low_short_term_weights:
  "get_weights ''low'' ''short-term'' =
     [(''life_expectancy'', 16 / 119), (''gdp_per_capita'', 15 / 119),
      (''population'', 4 / 119), (''pm25'', 24 / 119), (''travel_advisory_score'', 42 / 119),
      (''temperature'', 18 / 119), (''humidity'', 0)]"
  by (simp add: get_weights_def get_weights_with_def adjusted_weights_def Let_def
      literals_def base_weights_def low_table_def short_term_multipliers_def dict_scale_def)

lemma normalized_providers_down:
  "normalize_metrics (build_raw_metrics population [] [] [] []) =
     [(''life_expectancy'', 1 / 2), (''gdp_per_capita'', 1 / 2),
      (''population'', normalize_population population), (''pm25'', 1 / 2), (''pm10'', 1 / 2),
      (''travel_advisory_score'', 1 / 5), (''temperature'', 1 / 2), (''humidity'', 1 / 2)]"
  by (simp add: build_raw_metrics_def normalize_metrics_def opt_get_def
      normalize_life_expectancy_def normalize_gdp_per_capita_def
      normalize_pm25_def normalize_pm10_def normalize_travel_advisory_score_def
      normalize_temperature_def normalize_humidity_def)

lemma score_providers_down:
  "score_country rf
     (metrics_for_scoring (normalize_metrics (build_raw_metrics population [] [] [] [])))
     (get_weights ''low'' ''short-term'') =
   Inr (rf ((449 / 10 + 4 * normalize_population population) / 119 * 100) 2)"
  unfolding normalized_providers_down low_short_term_weights
  by (simp add: score_country_def metrics_for_scoring_def get_default_def add_divide_distrib
      algebra_simps)

lemma missing_providers_down:
  "missing_of (build_raw_metrics population [] [] [] []) =
     [''life_expectancy'', ''gdp_per_capita''] @
     (if population = None then [''population''] else []) @
     [''pm25'', ''pm10'', ''travel_advisory_score'', ''temperature'', ''humidity'']"
  by (simp add: build_raw_metrics_def missing_of_def opt_get_def)

lemma fetch_providers_down:
  assumes "has_identity p"
  shows "fetch_and_build rf cc ''low'' ''short-term'' debug_mode (providers_down p) =
    build_result rf cc ''low'' ''short-term'' debug_mode p [] [] [] []"
  using assms
  by (auto simp: has_identity_def fetch_and_build_def providers_down_def or_empty_def)

lemma overall_providers_down:
  "overall_of (build_result rf cc ''low'' ''short-term'' debug_mode p [] [] [] [])
     = Some (rf (rf
         ((449 / 10 + 4 * normalize_population (profile_population p)) / 119 * 100) 2) 1)"
  by (simp add: build_result_def Let_def score_providers_down overall_of_def)

lemma missing_outcome_providers_down:
  "set seven_missing
     \<subseteq> set (missing_of_outcome (build_result rf cc ''low'' ''short-term'' debug_mode p [] [] [] []))"
  by (auto simp: build_result_def Let_def score_providers_down missing_of_outcome_def
      missing_providers_down seven_missing_def)

lemma fallback_score_range:
  assumes "nonneg_opt population"
  shows "4490 / 119 \<le> (449 / 10 + 4 * normalize_population population) / 119 * 100 \<and>
         (449 / 10 + 4 * normalize_population population) / 119 * 100 \<le> 4890 / 119"
proof -
  have np: "0 \<le> normalize_population population \<and> normalize_population population \<le> 1"
    using assms by (rule normalize_population_unit)
  then show ?thesis by (simp add: field_simps)
qed

lemma fallback_score_bounds:
  assumes r: "rounds rf" and p: "nonneg_opt population"
  shows "377 / 10 \<le> rf (rf
           ((449 / 10 + 4 * normalize_population population) / 119 * 100) 2) 1 \<and>
         rf (rf
           ((449 / 10 + 4 * normalize_population population) / 119 * 100) 2) 1 \<le> 411 / 10"
proof -
  define S where "S = (449 / 10 + 4 * normalize_population population) / 119 * 100"
  define y where "y = rf S 2"
  have S: "4490 / 119 \<le> S" "S \<le> 4890 / 119"
    using fallback_score_range [OF p] by (simp_all add: S_def)
  have Sa: "\<bar>S\<bar> = S" using S by simp
  have "rf S 2 \<le> of_int 4109 / 10 ^ 2"
  proof (rule rounds_upper [OF r])
    show "S + round_slack * (1 + \<bar>S\<bar>) < (of_int 4109 + 1 / 2) / 10 ^ 2"
      unfolding Sa round_slack_def using S by (simp add: field_simps)
  qed simp
  then have yu: "y \<le> 4109 / 100" by (simp add: y_def)
  have "of_int 3773 / 10 ^ 2 \<le> rf S 2"
  proof (rule rounds_lower [OF r])
    show "(of_int 3773 - 1 / 2) / 10 ^ 2 < S - round_slack * (1 + \<bar>S\<bar>)"
      unfolding Sa round_slack_def using S by (simp add: field_simps)
  qed simp
  then have yl: "3773 / 100 \<le> y" by (simp add: y_def)
  have ya: "\<bar>y\<bar> = y" using yl by simp
  have "rf y 1 \<le> of_int 411 / 10 ^ 1"
  proof (rule rounds_upper [OF r])
    show "y + round_slack * (1 + \<bar>y\<bar>) < (of_int 411 + 1 / 2) / 10 ^ 1"
      unfolding ya round_slack_def using yl yu by (simp add: field_simps)
  qed simp
  moreover have "of_int 377 / 10 ^ 1 \<le> rf y 1"
  proof (rule rounds_lower [OF r])
    show "(of_int 377 - 1 / 2) / 10 ^ 1 < y - round_slack * (1 + \<bar>y\<bar>)"
      unfolding ya round_slack_def using yl yu by (simp add: field_simps)
  qed simp
  ultimately show ?thesis by (simp add: y_def S_def)
qed

lemma france_score:
  assumes r: "rounds rf"
  shows "rf (rf
     ((449 / 10 + 4 * normalize_population (profile_population france)) / 119 * 100) 2) 1
   = 409 / 10"
proof -
  have S: "(449 / 10 + 4 * normalize_population (profile_population france)) / 119 * 100
      = 4872 / 119"
    by (simp add: france_def normalize_population_def)
  have "rf (4872 / 119) 2 = of_int 4094 / 10 ^ 2"
    by (rule rounds_eq [OF r]) (simp_all add: round_slack_def)
  then have a: "rf (4872 / 119) 2 = 4094 / 100" by simp
  have "rf (4094 / 100) 1 = of_int 409 / 10 ^ 1"
    by (rule rounds_eq [OF r]) (simp_all add: round_slack_def)
  then have b: "rf (4094 / 100) 1 = 409 / 10" by simp
  show ?thesis by (simp only: S a b)
qed

text \<open>
  Claim C7, as stated: for France (a population of 67.5 million) with the identity fetch
  succeeding and the four provider fetches failing, the overall score is 50.0. It fails:
  the score is 40.9, the weighted sum being 0.40941... .
\<close>

theorem providers_down_score_not_50:
  "overall_of
     (fetch_and_build decimal_round ''FRA'' ''low'' ''short-term'' False (providers_down france))
     = Some (409 / 10) \<and>
   overall_of
     (fetch_and_build decimal_round ''FRA'' ''low'' ''short-term'' False (providers_down france))
     \<noteq> Some 50"
proof -
  have "has_identity france" by (simp add: has_identity_def france_def)
  then have "overall_of
      (fetch_and_build decimal_round ''FRA'' ''low'' ''short-term'' False (providers_down france))
     = Some (409 / 10)"
    by (simp only: fetch_providers_down overall_providers_down
        france_score [OF rounds_decimal_round])
  then show ?thesis by simp
qed

text \<open>
  Claim C7, amended: with the identity fetch succeeding (a non-empty ISO2 code; the
  population absent or not negative) and all four provider fetches failing, the call for
  low tolerance and short term builds a non-empty result; its missing metrics contain
  life_expectancy, gdp_per_capita, travel_advisory_score, temperature, pm25, pm10 and
  humidity; and its overall score is the weighted sum of the fallback-normalized values
  and the normalized population \<open>p\<close> with the low, short-term weights,
  \<open>100 * (44.9 + 4 * p) / 119\<close>, rounded by \<open>round\<close> to two digits and then to one. It lies
  between 37.7 and 41.1, whatever \<open>round\<close> does at a middle, and so is never 50.0.
\<close>

theorem providers_down_score:
  assumes "rounds rf" and "has_identity p" and "nonneg_opt (profile_population p)"
  shows "(\<exists>d m. fetch_and_build rf cc ''low'' ''short-term'' debug_mode (providers_down p)
            = Inr (ResultDict d, False, m)) \<and>
         set seven_missing \<subseteq> set (missing_of_outcome
           (fetch_and_build rf cc ''low'' ''short-term'' debug_mode (providers_down p))) \<and>
         overall_of (fetch_and_build rf cc ''low'' ''short-term'' debug_mode (providers_down p))
           = Some (rf (rf
               ((449 / 10 + 4 * normalize_population (profile_population p)) / 119 * 100) 2) 1) \<and>
         377 / 10 \<le> rf (rf
               ((449 / 10 + 4 * normalize_population (profile_population p)) / 119 * 100) 2) 1 \<and>
         rf (rf
               ((449 / 10 + 4 * normalize_population (profile_population p)) / 119 * 100) 2) 1
           \<le> 411 / 10 \<and>
         overall_of (fetch_and_build rf cc ''low'' ''short-term'' debug_mode (providers_down p))
           \<noteq> Some 50"
proof -
  let ?v = "rf (rf
      ((449 / 10 + 4 * normalize_population (profile_population p)) / 119 * 100) 2) 1"
  have e: "\<exists>d m. build_result rf cc ''low'' ''short-term'' debug_mode p [] [] [] []
      = Inr (ResultDict d, False, m)"
    by (simp add: build_result_def Let_def score_providers_down)
  have b: "377 / 10 \<le> ?v \<and> ?v \<le> 411 / 10"
    using fallback_score_bounds [OF assms(1) assms(3)] .
  then have n: "Some ?v \<noteq> Some 50" by simp
  show ?thesis
    using e b n
    by (simp only: fetch_providers_down [OF assms(2)] overall_providers_down
        missing_outcome_providers_down simp_thms)
qed

theorem providers_down_score_witness:
  "rounds decimal_round \<and> has_identity france \<and> nonneg_opt (profile_population france) \<and>
   overall_of
     (fetch_and_build decimal_round ''FRA'' ''low'' ''short-term'' False (providers_down france))
     = Some (409 / 10) \<and>
   set seven_missing \<subseteq> set (missing_of_outcome
     (fetch_and_build decimal_round ''FRA'' ''low'' ''short-term'' False
        (providers_down france)))"
proof -
  have h1: "has_identity france" by (simp add: has_identity_def france_def)
  have h2: "nonneg_opt (profile_population france)" by (simp add: nonneg_opt_def france_def)
  note T = providers_down_score [OF rounds_decimal_round h1 h2, of "''FRA''" False]
  have "overall_of
     (fetch_and_build decimal_round ''FRA'' ''low'' ''short-term'' False (providers_down france))
     = Some (409 / 10)"
    using T by (simp only: france_score [OF rounds_decimal_round])
  moreover have "set seven_missing \<subseteq> set (missing_of_outcome
     (fetch_and_build decimal_round ''FRA'' ''low'' ''short-term'' False
        (providers_down france)))"
    using T by (elim conjE)
  ultimately show ?thesis using h1 h2 rounds_decimal_round by (simp only: simp_thms)
qed

section \<open>In-flight deduplication\<close>

lemma cache_get_None_iff:
  "cache_get c now k = None \<longleftrightarrow> (\<forall>e \<in> set c. fst e = k \<longrightarrow> \<not> live now e)"
  by (auto simp: cache_get_def map_of_eq_None_iff image_iff)

lemma set_cache_put: "set (cache_put c now k v) \<subseteq> set c \<union> {(k, v, now + ttl)}"
proof -
  have "set (tl (filter (\<lambda>entry. fst entry \<noteq> k) (filter (live now) c))) \<subseteq> set c"
    by (metis (no_types, lifting) filter_is_subset list.set_sel(2) subsetI subset_trans tl_Nil)
  then show ?thesis by (auto simp: cache_put_def Let_def)
qed

lemma cache_get_put_other:
  assumes "k \<noteq> k'" "cache_get c now k = None"
  shows "cache_get (cache_put c now k' v) now k = None"
  using assms set_cache_put [of c now k' v]
  unfolding cache_get_None_iff by fastforce

lemma cache_get_later:
  assumes "now \<le> now'" "cache_get c now k = None"
  shows "cache_get c now' k = None"
  using assms unfolding cache_get_None_iff live_def by fastforce

lemma task_key_status [simp]: "task_key (t\<lparr>task_status := x\<rparr>) = task_key t"
  by (simp add: task_key_def)

lemma remove_in_flight_fields [simp]:
  "in_flight_requests (remove_in_flight k s) = (in_flight_requests s)(k := None)"
  "callers (remove_in_flight k s) = callers s"
  "tasks (remove_in_flight k s) = tasks s"
  "country_cache (remove_in_flight k s) = country_cache s"
  "clock (remove_in_flight k s) = clock s"
  by (auto simp: remove_in_flight_def is_in_flight_def)

lemma set_caller_fields [simp]:
  "in_flight_requests (set_caller i c s) = in_flight_requests s"
  "callers (set_caller i c s) = (callers s)[i := c]"
  "tasks (set_caller i c s) = tasks s"
  "country_cache (set_caller i c s) = country_cache s"
  "clock (set_caller i c s) = clock s"
  by (simp_all add: set_caller_def)

lemma add_caller_fields [simp]:
  "in_flight_requests (add_caller c s) = in_flight_requests s"
  "callers (add_caller c s) = callers s @ [c]"
  "tasks (add_caller c s) = tasks s"
  "country_cache (add_caller c s) = country_cache s"
  "clock (add_caller c s) = clock s"
  by (simp_all add: add_caller_def)

lemma set_cache_fields [simp]:
  "in_flight_requests (set_cache k d s) = in_flight_requests s"
  "callers (set_cache k d s) = callers s"
  "tasks (set_cache k d s) = tasks s"
  "clock (set_cache k d s) = clock s"
  "country_cache (set_cache k (Some v) s) = cache_put (country_cache s) (clock s) k v"
  "set_cache k None s = s"
  by (simp_all add: set_cache_def split: option.splits)

lemma status_of_simps [simp]:
  "status_of (remove_in_flight k s) t = status_of s t"
  "status_of (set_caller i c s) t = status_of s t"
  "status_of (add_caller c s) t = status_of s t"
  "status_of (set_cache k d s) t = status_of s t"
  by (simp_all add: status_of_def)

lemma owners_registeredD:
  assumes "owners_registered s" "i < length (callers s)"
    "callers s ! i = AwaitingOwnTask k t"
  shows "in_flight_requests s k = Some t" "get_cached s k = None"
    "t < length (tasks s)" "task_key (tasks s ! t) = k"
  using assms unfolding owners_registered_def by blast+

lemma owners_distinctD:
  assumes "owners_distinct s" "i < length (callers s)" "j < length (callers s)"
    "callers s ! i = AwaitingOwnTask k t" "callers s ! j = AwaitingOwnTask k t'"
  shows "i = j"
  using assms unfolding owners_distinct_def by blast

lemma pending_registeredD:
  assumes "pending_registered s" "t < length (tasks s)" "task_status (tasks s ! t) = Pending"
  shows "in_flight_requests s (task_key (tasks s ! t)) = Some t"
  using assms unfolding pending_registered_def by blast

lemma waiters_registeredD:
  assumes "waiters_registered w s" "i < length (callers s)"
    "callers s ! i = AwaitingInFlight k t" "Some t \<noteq> w"
  shows "in_flight_requests s k = Some t" "get_cached s k = None"
  using assms unfolding waiters_registered_def by blast+

lemma registry_invD:
  assumes "registry_inv w s"
  shows "owners_registered s" "owners_distinct s" "pending_registered s"
    "waiters_registered w s"
  using assms by (simp_all add: registry_inv_def)

lemma registry_inv_init: "registry_inv None init_state"
  by (simp add: registry_inv_def owners_registered_def owners_distinct_def
      pending_registered_def waiters_registered_def init_state_def)

text \<open>A step that leaves the calls and the registry alone.\<close>

lemma registry_inv_frame:
  assumes inv: "registry_inv w s"
    and c: "callers s' = callers s"
    and f: "in_flight_requests s' = in_flight_requests s"
    and g: "\<And>k. get_cached s k = None \<Longrightarrow> get_cached s' k = None"
    and l: "length (tasks s') = length (tasks s)"
    and k: "\<And>u. u < length (tasks s) \<Longrightarrow> task_key (tasks s' ! u) = task_key (tasks s ! u)"
    and p: "\<And>u. u < length (tasks s) \<Longrightarrow> task_status (tasks s' ! u) = Pending \<Longrightarrow>
              task_status (tasks s ! u) = Pending"
  shows "registry_inv w s'"
proof -
  note I = registry_invD [OF inv]
  have "owners_registered s'"
    unfolding owners_registered_def
  proof (intro allI impI)
    fix i k1 t1
    assume a: "i < length (callers s') \<and> callers s' ! i = AwaitingOwnTask k1 t1"
    then have i: "i < length (callers s)" and ci: "callers s ! i = AwaitingOwnTask k1 t1"
      using c by simp_all
    show "in_flight_requests s' k1 = Some t1 \<and> get_cached s' k1 = None \<and>
        t1 < length (tasks s') \<and> task_key (tasks s' ! t1) = k1"
      using owners_registeredD [OF I(1) i ci] f g l k by simp
  qed
  moreover have "owners_distinct s'"
    using I(2) c unfolding owners_distinct_def by simp
  moreover have "pending_registered s'"
    unfolding pending_registered_def
  proof (intro allI impI)
    fix t
    assume a: "t < length (tasks s') \<and> task_status (tasks s' ! t) = Pending"
    then have t: "t < length (tasks s)" using l by simp
    then have "task_status (tasks s ! t) = Pending" using a p by simp
    then show "in_flight_requests s' (task_key (tasks s' ! t)) = Some t"
      using pending_registeredD [OF I(3) t] f k t by simp
  qed
  moreover have "waiters_registered w s'"
    unfolding waiters_registered_def
  proof (intro allI impI)
    fix i k1 t1
    assume a: "i < length (callers s') \<and> callers s' ! i = AwaitingInFlight k1 t1 \<and> Some t1 \<noteq> w"
    then have i: "i < length (callers s)" and ci: "callers s ! i = AwaitingInFlight k1 t1"
      and w: "Some t1 \<noteq> w"
      using c by simp_all
    show "in_flight_requests s' k1 = Some t1 \<and> get_cached s' k1 = None"
      using waiters_registeredD [OF I(4) i ci w] f g by simp
  qed
  ultimately show ?thesis by (simp add: registry_inv_def)
qed

lemma registry_inv_tick:
  assumes "registry_inv w s"
  shows "registry_inv w (step rf (Tick dt) s)"
proof (cases "0 \<le> dt")
  case False then show ?thesis using assms by simp
next
  case True
  have "\<And>k. get_cached s k = None \<Longrightarrow> get_cached (s\<lparr>clock := clock s + dt\<rparr>) k = None"
    using True cache_get_later [of "clock s" "clock s + dt" "country_cache s"]
    by (simp add: get_cached_def)
  then have "registry_inv w (s\<lparr>clock := clock s + dt\<rparr>)"
    by (intro registry_inv_frame [OF assms]) simp_all
  then show ?thesis using True by simp
qed

lemma registry_inv_finish:
  assumes "registry_inv w s"
  shows "registry_inv w (step rf (Finish t env) s)"
proof (cases "t < length (tasks s) \<and> task_status (tasks s ! t) = Pending")
  case False then show ?thesis using assms by (auto simp: task_finish_def)
next
  case True
  define x where "x = Done (fetch_and_build rf (task_country_code (tasks s ! t))
                         (task_risk_tolerance (tasks s ! t)) (task_duration (tasks s ! t))
                         (task_debug_mode (tasks s ! t)) env)"
  define s' where "s' = s\<lparr>tasks := (tasks s)[t := (tasks s ! t)\<lparr>task_status := x\<rparr>]\<rparr>"
  have eq: "step rf (Finish t env) s = s'"
    using True by (simp add: task_finish_def s'_def x_def)
  have "registry_inv w s'"
  proof (rule registry_inv_frame [OF assms])
    fix u assume u: "u < length (tasks s)"
    show "task_key (tasks s' ! u) = task_key (tasks s ! u)"
      using u by (cases "u = t") (simp_all add: s'_def)
    assume "task_status (tasks s' ! u) = Pending"
    then show "task_status (tasks s ! u) = Pending"
      using u by (cases "u = t") (simp_all add: s'_def x_def)
  qed (simp_all add: s'_def get_cached_def)
  then show ?thesis using eq by simp
qed

text \<open>A step that appends a call which does not own a task.\<close>

lemma registry_inv_add_caller:
  assumes inv: "registry_inv w s"
    and n: "\<And>k t. c \<noteq> AwaitingOwnTask k t"
    and j: "\<And>k t. c = AwaitingInFlight k t \<Longrightarrow>
              in_flight_requests s k = Some t \<and> get_cached s k = None"
  shows "registry_inv w (add_caller c s)"
proof -
  note I = registry_invD [OF inv]
  have old: "\<And>i k t. i < length (callers s @ [c]) \<Longrightarrow>
      (callers s @ [c]) ! i = AwaitingOwnTask k t \<Longrightarrow>
      i < length (callers s) \<and> callers s ! i = AwaitingOwnTask k t"
    using n by (auto simp: nth_append split: if_splits)
  have "owners_registered (add_caller c s)"
    unfolding owners_registered_def
  proof (intro allI impI)
    fix i k1 t1
    assume "i < length (callers (add_caller c s)) \<and>
      callers (add_caller c s) ! i = AwaitingOwnTask k1 t1"
    then have i: "i < length (callers s)" and ci: "callers s ! i = AwaitingOwnTask k1 t1"
      using old [of i k1 t1] by simp_all
    show "in_flight_requests (add_caller c s) k1 = Some t1 \<and>
        get_cached (add_caller c s) k1 = None \<and>
        t1 < length (tasks (add_caller c s)) \<and> task_key (tasks (add_caller c s) ! t1) = k1"
      using owners_registeredD [OF I(1) i ci] by (simp add: get_cached_def)
  qed
  moreover have "owners_distinct (add_caller c s)"
    unfolding owners_distinct_def
  proof (intro allI impI)
    fix i j k1 t1 t2
    assume "i < length (callers (add_caller c s)) \<and> j < length (callers (add_caller c s)) \<and>
       callers (add_caller c s) ! i = AwaitingOwnTask k1 t1 \<and>
       callers (add_caller c s) ! j = AwaitingOwnTask k1 t2"
    then have "i < length (callers s) \<and> callers s ! i = AwaitingOwnTask k1 t1"
      and "j < length (callers s) \<and> callers s ! j = AwaitingOwnTask k1 t2"
      using old [of i k1 t1] old [of j k1 t2] by simp_all
    then show "i = j" using owners_distinctD [OF I(2)] by blast
  qed
  moreover have "pending_registered (add_caller c s)"
    using I(3) by (simp add: pending_registered_def)
  moreover have "waiters_registered w (add_caller c s)"
    unfolding waiters_registered_def
  proof (intro allI impI)
    fix i k1 t1
    assume a: "i < length (callers (add_caller c s)) \<and>
      callers (add_caller c s) ! i = AwaitingInFlight k1 t1 \<and> Some t1 \<noteq> w"
    show "in_flight_requests (add_caller c s) k1 = Some t1 \<and>
        get_cached (add_caller c s) k1 = None"
    proof (cases "i < length (callers s)")
      case True
      then have ci: "callers s ! i = AwaitingInFlight k1 t1" using a by (simp add: nth_append)
      show ?thesis using waiters_registeredD [OF I(4) True ci] a by (simp add: get_cached_def)
    next
      case False
      then have "i = length (callers s)" using a by simp
      then have "c = AwaitingInFlight k1 t1" using a by simp
      then show ?thesis using j by (simp add: get_cached_def)
    qed
  qed
  ultimately show ?thesis by (simp add: registry_inv_def)
qed

lemma analyze_country_begin_cases:
  "analyze_country_begin cc rt dur dbg s =
     (case get_cached s (cache_key cc rt dur) of
        Some r \<Rightarrow> add_caller (Returned (r, True, [])) s
      | None \<Rightarrow>
          (case in_flight_requests s (cache_key cc rt dur) of
             Some t \<Rightarrow> add_caller (await_in_flight (cache_key cc rt dur) t s) s
           | None \<Rightarrow> start_task cc rt dur dbg s))"
  by (simp add: analyze_country_begin_def Let_def start_task_def add_caller_def
      set_in_flight_def get_in_flight_def split: option.splits)

lemma await_in_flight_cases:
  "await_in_flight k t s = AwaitingInFlight k t \<or>
   (\<exists>e. await_in_flight k t s = Raised e) \<or> (\<exists>r. await_in_flight k t s = Returned r)"
  by (auto simp: await_in_flight_def split: task_status.splits sum.splits)

lemma await_in_flight_not_owner [simp]: "await_in_flight k t s \<noteq> AwaitingOwnTask k' t'"
  using await_in_flight_cases [of k t s] by auto

lemma await_in_flight_waiter:
  "await_in_flight k t s = AwaitingInFlight k' t' \<Longrightarrow> k' = k \<and> t' = t"
  using await_in_flight_cases [of k t s] by auto

lemma registry_inv_start_task:
  assumes inv: "registry_inv w s"
    and nf: "in_flight_requests s (cache_key cc rt dur) = None"
    and nc: "get_cached s (cache_key cc rt dur) = None"
  shows "registry_inv w (start_task cc rt dur dbg s)"
proof -
  let ?k = "cache_key cc rt dur"
  let ?s = "start_task cc rt dur dbg s"
  note I = registry_invD [OF inv]
  have cs: "callers ?s = callers s @ [AwaitingOwnTask ?k (length (tasks s))]"
    and fl: "in_flight_requests ?s = (in_flight_requests s)(?k \<mapsto> length (tasks s))"
    and len: "length (tasks ?s) = Suc (length (tasks s))"
    and gc: "\<And>k. get_cached ?s k = get_cached s k"
    by (simp_all add: start_task_def get_cached_def)
  have tk_old: "\<And>u. u < length (tasks s) \<Longrightarrow> tasks ?s ! u = tasks s ! u"
    by (simp add: start_task_def nth_append)
  have tk_new: "task_key (tasks ?s ! length (tasks s)) = ?k"
    "task_status (tasks ?s ! length (tasks s)) = Pending"
    by (simp_all add: start_task_def task_key_def)
  have old_owner: "\<And>i k t. i < length (callers s) \<Longrightarrow> callers s ! i = AwaitingOwnTask k t
      \<Longrightarrow> k \<noteq> ?k"
    using owners_registeredD(1) [OF I(1)] nf by fastforce
  have "owners_registered ?s"
    unfolding owners_registered_def
  proof (intro allI impI)
    fix i k1 t1
    assume a: "i < length (callers ?s) \<and> callers ?s ! i = AwaitingOwnTask k1 t1"
    show "in_flight_requests ?s k1 = Some t1 \<and> get_cached ?s k1 = None \<and>
        t1 < length (tasks ?s) \<and> task_key (tasks ?s ! t1) = k1"
    proof (cases "i < length (callers s)")
      case True
      then have ci: "callers s ! i = AwaitingOwnTask k1 t1" using a cs by (simp add: nth_append)
      note D = owners_registeredD [OF I(1) True ci]
      have "k1 \<noteq> ?k" using old_owner [OF True ci] .
      then show ?thesis using D fl gc len tk_old [of t1] by simp
    next
      case False
      then have "i = length (callers s)" using a cs by simp
      then have "k1 = ?k" "t1 = length (tasks s)" using a cs by simp_all
      then show ?thesis using fl gc nc len tk_new by simp
    qed
  qed
  moreover have "owners_distinct ?s"
    unfolding owners_distinct_def
  proof (intro allI impI)
    fix i j k1 t1 t2
    assume a: "i < length (callers ?s) \<and> j < length (callers ?s) \<and>
       callers ?s ! i = AwaitingOwnTask k1 t1 \<and> callers ?s ! j = AwaitingOwnTask k1 t2"
    show "i = j"
    proof (cases "i < length (callers s)")
      case i: True
      then have ci: "callers s ! i = AwaitingOwnTask k1 t1" using a cs by (simp add: nth_append)
      have k1: "k1 \<noteq> ?k" using old_owner [OF i ci] .
      show ?thesis
      proof (cases "j < length (callers s)")
        case j: True
        then have "callers s ! j = AwaitingOwnTask k1 t2" using a cs by (simp add: nth_append)
        then show ?thesis using owners_distinctD [OF I(2) i j ci] by simp
      next
        case False
        then have "j = length (callers s)" using a cs by simp
        then have "k1 = ?k" using a cs by simp
        then show ?thesis using k1 by simp
      qed
    next
      case False
      then have i: "i = length (callers s)" using a cs by simp
      then have k1: "k1 = ?k" using a cs by simp
      show ?thesis
      proof (cases "j < length (callers s)")
        case j: True
        then have "callers s ! j = AwaitingOwnTask k1 t2" using a cs by (simp add: nth_append)
        then show ?thesis using old_owner [OF j] k1 by simp
      next
        case False
        then show ?thesis using a cs i by simp
      qed
    qed
  qed
  moreover have "pending_registered ?s"
    unfolding pending_registered_def
  proof (intro allI impI)
    fix t
    assume a: "t < length (tasks ?s) \<and> task_status (tasks ?s ! t) = Pending"
    show "in_flight_requests ?s (task_key (tasks ?s ! t)) = Some t"
    proof (cases "t < length (tasks s)")
      case True
      then have p: "task_status (tasks s ! t) = Pending" using a tk_old by simp
      have f: "in_flight_requests s (task_key (tasks s ! t)) = Some t"
        using pending_registeredD [OF I(3) True p] .
      then have "task_key (tasks s ! t) \<noteq> ?k" using nf by auto
      then show ?thesis using f fl tk_old [OF True] by simp
    next
      case False
      then have "t = length (tasks s)" using a len by simp
      then show ?thesis using fl tk_new by simp
    qed
  qed
  moreover have "waiters_registered w ?s"
    unfolding waiters_registered_def
  proof (intro allI impI)
    fix i k1 t1
    assume a: "i < length (callers ?s) \<and> callers ?s ! i = AwaitingInFlight k1 t1 \<and> Some t1 \<noteq> w"
    then have i: "i < length (callers s)"
      using cs by (cases "i = length (callers s)") simp_all
    then have ci: "callers s ! i = AwaitingInFlight k1 t1" using a cs by (simp add: nth_append)
    note D = waiters_registeredD [OF I(4) i ci]
    have "k1 \<noteq> ?k" using D(1) a nf by auto
    then show "in_flight_requests ?s k1 = Some t1 \<and> get_cached ?s k1 = None"
      using D a fl gc by simp
  qed
  ultimately show ?thesis by (simp add: registry_inv_def)
qed

lemma registry_inv_call:
  assumes "registry_inv None s"
  shows "registry_inv None (step rf (Call cc rt dur dbg) s)"
proof -
  let ?k = "cache_key cc rt dur"
  show ?thesis
  proof (cases "get_cached s ?k")
    case (Some r)
    have "registry_inv None (add_caller (Returned (r, True, [])) s)"
      by (rule registry_inv_add_caller [OF assms]) simp_all
    then show ?thesis using Some by (simp add: analyze_country_begin_cases)
  next
    case None
    show ?thesis
    proof (cases "in_flight_requests s ?k")
      case (Some t)
      have "registry_inv None (add_caller (await_in_flight ?k t s) s)"
        using await_in_flight_waiter [of ?k t s] Some None
        by (intro registry_inv_add_caller [OF assms]) auto
      then show ?thesis using None Some by (simp add: analyze_country_begin_cases)
    next
      case nf: None
      then show ?thesis using None assms
        by (simp add: analyze_country_begin_cases registry_inv_start_task)
    qed
  qed
qed

text \<open>A waiting call ends.\<close>

lemma registry_inv_waiter_leaves:
  assumes inv: "registry_inv w s"
    and i: "i < length (callers s)"
    and ci: "callers s ! i = AwaitingInFlight k t"
    and n: "\<And>k t. c \<noteq> AwaitingOwnTask k t" "\<And>k t. c \<noteq> AwaitingInFlight k t"
  shows "registry_inv w (set_caller i c s)"
proof -
  note I = registry_invD [OF inv]
  have old: "\<And>j k t. j < length (callers s) \<Longrightarrow> (callers s)[i := c] ! j = AwaitingOwnTask k t
      \<Longrightarrow> callers s ! j = AwaitingOwnTask k t"
    using n by (metis nth_list_update_eq nth_list_update_neq)
  have oldw: "\<And>j k t. j < length (callers s) \<Longrightarrow> (callers s)[i := c] ! j = AwaitingInFlight k t
      \<Longrightarrow> callers s ! j = AwaitingInFlight k t"
    using n by (metis nth_list_update_eq nth_list_update_neq)
  have "owners_registered (set_caller i c s)"
    unfolding owners_registered_def
  proof (intro allI impI)
    fix j k1 t1
    assume "j < length (callers (set_caller i c s)) \<and>
      callers (set_caller i c s) ! j = AwaitingOwnTask k1 t1"
    then have j: "j < length (callers s)" and cj: "callers s ! j = AwaitingOwnTask k1 t1"
      using old [of j k1 t1] by simp_all
    show "in_flight_requests (set_caller i c s) k1 = Some t1 \<and>
        get_cached (set_caller i c s) k1 = None \<and>
        t1 < length (tasks (set_caller i c s)) \<and> task_key (tasks (set_caller i c s) ! t1) = k1"
      using owners_registeredD [OF I(1) j cj] by (simp add: get_cached_def)
  qed
  moreover have "owners_distinct (set_caller i c s)"
    unfolding owners_distinct_def
  proof (intro allI impI)
    fix j l k1 t1 t2
    assume "j < length (callers (set_caller i c s)) \<and> l < length (callers (set_caller i c s)) \<and>
       callers (set_caller i c s) ! j = AwaitingOwnTask k1 t1 \<and>
       callers (set_caller i c s) ! l = AwaitingOwnTask k1 t2"
    then have "j < length (callers s)" "callers s ! j = AwaitingOwnTask k1 t1"
      "l < length (callers s)" "callers s ! l = AwaitingOwnTask k1 t2"
      using old [of j k1 t1] old [of l k1 t2] by simp_all
    then show "j = l" using owners_distinctD [OF I(2)] by blast
  qed
  moreover have "pending_registered (set_caller i c s)"
    using I(3) by (simp add: pending_registered_def)
  moreover have "waiters_registered w (set_caller i c s)"
    unfolding waiters_registered_def
  proof (intro allI impI)
    fix j k1 t1
    assume a: "j < length (callers (set_caller i c s)) \<and>
      callers (set_caller i c s) ! j = AwaitingInFlight k1 t1 \<and> Some t1 \<noteq> w"
    then have j: "j < length (callers s)" and cj: "callers s ! j = AwaitingInFlight k1 t1"
      using oldw [of j k1 t1] by simp_all
    show "in_flight_requests (set_caller i c s) k1 = Some t1 \<and>
        get_cached (set_caller i c s) k1 = None"
      using waiters_registeredD [OF I(4) j cj] a by (simp add: get_cached_def)
  qed
  ultimately show ?thesis by (simp add: registry_inv_def)
qed

text \<open>
  The call that owns the finished task \<open>t\<close> ends and removes the registration; the calls
  still waiting for \<open>t\<close> are the ones about to be woken.
\<close>

lemma registry_inv_owner_leaves:
  assumes inv: "registry_inv (Some t) s"
    and i: "i < length (callers s)"
    and ci: "callers s ! i = AwaitingOwnTask k t"
    and fin: "status_of s t = Done x"
    and n: "\<And>k t. c \<noteq> AwaitingOwnTask k t" "\<And>k t. c \<noteq> AwaitingInFlight k t"
    and cs: "callers s' = (callers s)[i := c]"
    and fl: "in_flight_requests s' = (in_flight_requests s)(k := None)"
    and ts: "tasks s' = tasks s"
    and gc: "\<And>k1. k1 \<noteq> k \<Longrightarrow> get_cached s k1 = None \<Longrightarrow> get_cached s' k1 = None"
  shows "registry_inv (Some t) s'"
proof -
  note I = registry_invD [OF inv]
  note Di = owners_registeredD [OF I(1) i ci]
  have tdone: "task_status (tasks s ! t) = Done x"
    using fin Di(3) by (simp add: status_of_def)
  have old: "\<And>j k1 t1. j < length (callers s) \<Longrightarrow> callers s' ! j = AwaitingOwnTask k1 t1
      \<Longrightarrow> callers s ! j = AwaitingOwnTask k1 t1 \<and> j \<noteq> i"
    using n cs by (metis nth_list_update_eq nth_list_update_neq)
  have oldw: "\<And>j k1 t1. j < length (callers s) \<Longrightarrow> callers s' ! j = AwaitingInFlight k1 t1
      \<Longrightarrow> callers s ! j = AwaitingInFlight k1 t1"
    using n cs by (metis nth_list_update_eq nth_list_update_neq)
  have other: "\<And>j k1 t1. j < length (callers s) \<Longrightarrow> callers s ! j = AwaitingOwnTask k1 t1
      \<Longrightarrow> j \<noteq> i \<Longrightarrow> k1 \<noteq> k"
    using owners_distinctD [OF I(2) _ i _ ci] by blast
  have "owners_registered s'"
    unfolding owners_registered_def
  proof (intro allI impI)
    fix j k1 t1
    assume a: "j < length (callers s') \<and> callers s' ! j = AwaitingOwnTask k1 t1"
    then have j: "j < length (callers s)" using cs by simp
    have cj: "callers s ! j = AwaitingOwnTask k1 t1" and ji: "j \<noteq> i"
      using old [OF j] a by simp_all
    have k1: "k1 \<noteq> k" using other [OF j cj ji] .
    show "in_flight_requests s' k1 = Some t1 \<and> get_cached s' k1 = None \<and>
        t1 < length (tasks s') \<and> task_key (tasks s' ! t1) = k1"
      using owners_registeredD [OF I(1) j cj] k1 fl ts gc by simp
  qed
  moreover have "owners_distinct s'"
    unfolding owners_distinct_def
  proof (intro allI impI)
    fix j l k1 t1 t2
    assume a: "j < length (callers s') \<and> l < length (callers s') \<and>
       callers s' ! j = AwaitingOwnTask k1 t1 \<and> callers s' ! l = AwaitingOwnTask k1 t2"
    then have j: "j < length (callers s)" and l: "l < length (callers s)" using cs by simp_all
    have "callers s ! j = AwaitingOwnTask k1 t1" "callers s ! l = AwaitingOwnTask k1 t2"
      using old [OF j] old [OF l] a by simp_all
    then show "j = l" using owners_distinctD [OF I(2) j l] by blast
  qed
  moreover have "pending_registered s'"
    unfolding pending_registered_def
  proof (intro allI impI)
    fix u
    assume a: "u < length (tasks s') \<and> task_status (tasks s' ! u) = Pending"
    then have u: "u < length (tasks s)" and p: "task_status (tasks s ! u) = Pending"
      using ts by simp_all
    have f: "in_flight_requests s (task_key (tasks s ! u)) = Some u"
      using pending_registeredD [OF I(3) u p] .
    have "task_key (tasks s ! u) \<noteq> k"
    proof
      assume "task_key (tasks s ! u) = k"
      then have "u = t" using f Di(1) by simp
      then show False using p tdone by simp
    qed
    then show "in_flight_requests s' (task_key (tasks s' ! u)) = Some u"
      using f fl ts by simp
  qed
  moreover have "waiters_registered (Some t) s'"
    unfolding waiters_registered_def
  proof (intro allI impI)
    fix j k1 t1
    assume a: "j < length (callers s') \<and> callers s' ! j = AwaitingInFlight k1 t1 \<and>
      Some t1 \<noteq> Some t"
    then have j: "j < length (callers s)" using cs by simp
    have cj: "callers s ! j = AwaitingInFlight k1 t1" using oldw [OF j] a by simp
    note D = waiters_registeredD [OF I(4) j cj]
    have "k1 \<noteq> k" using D(1) Di(1) a by auto
    then show "in_flight_requests s' k1 = Some t1 \<and> get_cached s' k1 = None"
      using D a fl gc by simp
  qed
  ultimately show ?thesis by (simp add: registry_inv_def)
qed

lemma await_in_flight_done:
  "status_of s t \<noteq> Pending \<Longrightarrow>
   await_in_flight k t s \<noteq> AwaitingOwnTask k' t' \<and>
   await_in_flight k t s \<noteq> AwaitingInFlight k' t'"
  by (auto simp: await_in_flight_def split: task_status.splits sum.splits)

lemma registry_inv_wake_one:
  assumes inv: "registry_inv (Some t) s"
  shows "registry_inv (Some t) (wake_one t s i)"
proof (cases "i < length (callers s) \<and> awaits (callers s ! i) t")
  case False
  then show ?thesis using inv by (auto simp: wake_one_def analyze_country_resume_def)
next
  case True
  then have i: "i < length (callers s)" and aw: "awaits (callers s ! i) t" by simp_all
  show ?thesis
  proof (cases "callers s ! i")
    case (AwaitingOwnTask k t')
    then have own: "callers s ! i = AwaitingOwnTask k t" using aw by simp
    show ?thesis
    proof (cases "status_of s t")
      case Pending
      then show ?thesis using inv i own aw by (simp add: wake_one_def analyze_country_resume_def)
    next
      case (Done x)
      show ?thesis
      proof (cases x)
        case (Inl e)
        have "registry_inv (Some t) (remove_in_flight k (set_caller i (Raised e) s))"
          by (rule registry_inv_owner_leaves [OF inv i own Done])
             (simp_all add: get_cached_def)
        then show ?thesis using i own aw Done Inl
          by (simp add: wake_one_def analyze_country_resume_def)
      next
        case (Inr res)
        obtain r h m where res: "res = (r, h, m)" by (cases res)
        have "registry_inv (Some t) (remove_in_flight k
                (set_caller i (Returned (r, h, m)) (set_cache k (Some r) s)))"
          by (rule registry_inv_owner_leaves [OF inv i own Done])
             (simp_all add: get_cached_def cache_get_put_other)
        then show ?thesis using i own aw Done Inr res
          by (simp add: wake_one_def analyze_country_resume_def)
      qed
    qed
  next
    case (AwaitingInFlight k t')
    then have wt: "callers s ! i = AwaitingInFlight k t" using aw by simp
    show ?thesis
    proof (cases "status_of s t = Pending")
      case True
      then show ?thesis using inv i wt aw by (simp add: wake_one_def analyze_country_resume_def)
    next
      case False
      have "registry_inv (Some t) (set_caller i (await_in_flight k t s) s)"
        using await_in_flight_done [OF False]
        by (intro registry_inv_waiter_leaves [OF inv i wt]) simp_all
      then show ?thesis using i wt aw False
        by (simp add: wake_one_def analyze_country_resume_def)
    qed
  next
    case (Returned r)
    then show ?thesis using aw by simp
  next
    case (Raised e)
    then show ?thesis using aw by simp
  qed
qed

lemma analyze_country_resume_frame:
  "length (callers (analyze_country_resume i s)) = length (callers s)"
  "tasks (analyze_country_resume i s) = tasks s"
  "j \<noteq> i \<Longrightarrow> callers (analyze_country_resume i s) ! j = callers s ! j"
  by (auto simp: analyze_country_resume_def split: caller.splits task_status.splits sum.splits)

lemma analyze_country_resume_ends:
  assumes "i < length (callers s)" "awaits (callers s ! i) t" "status_of s t \<noteq> Pending"
  shows "\<not> awaits (callers (analyze_country_resume i s) ! i) t'"
proof (cases "callers s ! i")
  case (AwaitingOwnTask k u)
  then have "u = t" using assms by simp
  then show ?thesis using assms AwaitingOwnTask
    by (auto simp: analyze_country_resume_def split: task_status.splits sum.splits)
next
  case (AwaitingInFlight k u)
  then have u: "u = t" using assms by simp
  have "\<not> awaits (await_in_flight k t s) t'"
    using assms(3) by (auto simp: await_in_flight_def split: task_status.splits sum.splits)
  then show ?thesis using assms AwaitingInFlight u
    by (simp add: analyze_country_resume_def)
qed (use assms in simp_all)

lemma wake_one_frame:
  "length (callers (wake_one t s i)) = length (callers s)"
  "tasks (wake_one t s i) = tasks s"
  "j \<noteq> i \<Longrightarrow> callers (wake_one t s i) ! j = callers s ! j"
  by (simp_all add: wake_one_def analyze_country_resume_frame)

lemma wake_one_ends:
  assumes "i < length (callers s)" "status_of s t \<noteq> Pending"
  shows "\<not> awaits (callers (wake_one t s i) ! i) t"
  using assms analyze_country_resume_ends [of i s t t]
  by (cases "awaits (callers s ! i) t") (simp_all add: wake_one_def)

lemma wake_all:
  assumes inv: "registry_inv (Some t) s" and fin: "status_of s t \<noteq> Pending"
    and n: "n \<le> length (callers s)"
  shows "registry_inv (Some t) (foldl (wake_one t) s [0..<n]) \<and>
    length (callers (foldl (wake_one t) s [0..<n])) = length (callers s) \<and>
    tasks (foldl (wake_one t) s [0..<n]) = tasks s \<and>
    (\<forall>j < n. \<not> awaits (callers (foldl (wake_one t) s [0..<n]) ! j) t)"
  using n
proof (induction n)
  case 0
  show ?case using inv by simp
next
  case (Suc n)
  let ?s = "foldl (wake_one t) s [0..<n]"
  have IH: "registry_inv (Some t) ?s" "length (callers ?s) = length (callers s)"
    "tasks ?s = tasks s" "\<forall>j < n. \<not> awaits (callers ?s ! j) t"
    using Suc by simp_all
  have "status_of ?s t = status_of s t" by (simp add: status_of_def IH(3))
  then have st: "status_of ?s t \<noteq> Pending" using fin by simp
  have nl: "n < length (callers ?s)" using Suc.prems IH(2) by simp
  have eq: "foldl (wake_one t) s [0..<Suc n] = wake_one t ?s n" by simp
  have "\<forall>j < Suc n. \<not> awaits (callers (wake_one t ?s n) ! j) t"
  proof (intro allI impI)
    fix j assume "j < Suc n"
    show "\<not> awaits (callers (wake_one t ?s n) ! j) t"
    proof (cases "j = n")
      case True
      then show ?thesis using wake_one_ends [OF nl st] by simp
    next
      case False
      then have "j < n" using \<open>j < Suc n\<close> by simp
      then show ?thesis using IH(4) False by (simp add: wake_one_frame)
    qed
  qed
  then show ?case
    unfolding eq using registry_inv_wake_one [OF IH(1)] IH(2,3) by (simp add: wake_one_frame)
qed

lemma registry_inv_weaken: "registry_inv None s \<Longrightarrow> registry_inv w s"
  by (auto simp: registry_inv_def waiters_registered_def)

lemma registry_inv_strengthen:
  assumes "registry_inv (Some t) s" "\<forall>j < length (callers s). \<not> awaits (callers s ! j) t"
  shows "registry_inv None s"
proof -
  have "waiters_registered None s"
    unfolding waiters_registered_def
  proof (intro allI impI)
    fix i k u
    assume a: "i < length (callers s) \<and> callers s ! i = AwaitingInFlight k u \<and> Some u \<noteq> None"
    then have "u \<noteq> t" using assms(2) by auto
    then show "in_flight_requests s k = Some u \<and> get_cached s k = None"
      using waiters_registeredD [OF registry_invD(4) [OF assms(1)], of i k u] a by simp
  qed
  then show ?thesis using assms(1) by (simp add: registry_inv_def)
qed

lemma registry_inv_wakeup:
  assumes "registry_inv None s"
  shows "registry_inv None (step rf (Wakeup t) s)"
proof (cases "status_of s t = Pending")
  case True
  then show ?thesis using assms by (simp add: wakeup_def)
next
  case False
  note W = wake_all [OF registry_inv_weaken [OF assms] False order_refl]
  have "registry_inv None (foldl (wake_one t) s [0..<length (callers s)])"
    by (rule registry_inv_strengthen [of t]) (use W in simp_all)
  then show ?thesis using False by (simp add: wakeup_def)
qed

lemma registry_inv_step: "registry_inv None s \<Longrightarrow> registry_inv None (step rf e s)"
  by (cases e) (simp_all only: registry_inv_call registry_inv_finish registry_inv_wakeup
      registry_inv_tick)

lemma run_snoc: "run rf (es @ [e]) s = step rf e (run rf es s)"
  by (simp add: run_def)

lemma run_Nil: "run rf [] s = s"
  by (simp add: run_def)

lemma registry_inv_run: "registry_inv None s \<Longrightarrow> registry_inv None (run rf es s)"
  by (induction es rule: rev_induct) (simp_all add: run_snoc run_Nil registry_inv_step)

lemma registry_inv_reachable: "registry_inv None (run rf es init_state)"
  by (rule registry_inv_run [OF registry_inv_init])

lemma suspended_registered:
  assumes inv: "registry_inv None s" and a: "a < length (callers s)"
    and su: "suspended_on (callers s ! a) k t"
  shows "in_flight_requests s k = Some t" "get_cached s k = None"
  using su owners_registeredD(1,2) [OF registry_invD(1) [OF inv] a, of k t]
    waiters_registeredD [OF registry_invD(4) [OF inv] a, of k t]
  by (auto simp: suspended_on_def)

text \<open>A call that is suspended after a step was suspended, on the same task, before it.\<close>

lemma resume_suspended:
  assumes "a < length (callers s)" "suspended_on (callers (analyze_country_resume i s) ! a) k t"
  shows "callers (analyze_country_resume i s) ! a = callers s ! a"
proof (cases "a = i")
  case False
  then show ?thesis by (simp add: analyze_country_resume_frame)
next
  case True
  have nw: "\<And>k' t'. status_of s t' \<noteq> Pending \<Longrightarrow> \<not> suspended_on (await_in_flight k' t' s) k t"
    by (auto simp: suspended_on_def await_in_flight_def split: task_status.splits sum.splits)
  show ?thesis
  proof (cases "callers s ! i")
    case (AwaitingOwnTask k' t')
    then show ?thesis using assms True
      by (auto simp: analyze_country_resume_def suspended_on_def
          split: task_status.splits sum.splits)
  next
    case (AwaitingInFlight k' t')
    then show ?thesis using assms True nw [of t' k']
      by (auto simp: analyze_country_resume_def split: if_splits)
  qed (use assms True in \<open>simp_all add: analyze_country_resume_def\<close>)
qed

lemma wake_one_suspended:
  assumes "a < length (callers s)" "suspended_on (callers (wake_one u s i) ! a) k t"
  shows "callers (wake_one u s i) ! a = callers s ! a"
  using assms resume_suspended [of a s i k t] by (auto simp: wake_one_def)

lemma wake_fold_suspended:
  assumes "a < length (callers s)" "suspended_on (callers (foldl (wake_one u) s is) ! a) k t"
  shows "callers (foldl (wake_one u) s is) ! a = callers s ! a"
  using assms
proof (induction "is" arbitrary: s)
  case Nil
  then show ?case by simp
next
  case (Cons i "is")
  have a': "a < length (callers (wake_one u s i))" using Cons.prems by (simp add: wake_one_frame)
  have 1: "callers (foldl (wake_one u) (wake_one u s i) is) ! a = callers (wake_one u s i) ! a"
    using Cons.IH [OF a'] Cons.prems by simp
  then have "suspended_on (callers (wake_one u s i) ! a) k t" using Cons.prems by simp
  then show ?case using 1 wake_one_suspended [OF Cons.prems(1)] by simp
qed

lemma wake_fold_frame:
  "length (callers (foldl (wake_one u) s is)) = length (callers s)"
  "tasks (foldl (wake_one u) s is) = tasks s"
  by (induction "is" arbitrary: s) (simp_all add: wake_one_frame)

lemma wakeup_frame:
  "length (callers (wakeup u s)) = length (callers s)"
  "tasks (wakeup u s) = tasks s"
  by (simp_all add: wakeup_def wake_fold_frame)

lemma step_callers_length: "length (callers s) \<le> length (callers (step rf e s))"
proof (cases e)
  case (Call cc rt dur dbg)
  then show ?thesis
    by (simp add: analyze_country_begin_cases start_task_def split: option.splits)
next
  case (Finish t env)
  then show ?thesis by (simp add: task_finish_def)
next
  case (Wakeup t)
  then show ?thesis by (simp add: wakeup_frame)
next
  case (Tick dt)
  then show ?thesis by simp
qed

lemma step_suspended:
  assumes a: "a < length (callers s)" and su: "suspended_on (callers (step rf e s) ! a) k t"
  shows "callers (step rf e s) ! a = callers s ! a"
proof (cases e)
  case (Call cc rt dur dbg)
  then show ?thesis using a
    by (simp add: analyze_country_begin_cases start_task_def nth_append split: option.splits)
next
  case (Finish t env)
  then show ?thesis by (simp add: task_finish_def)
next
  case (Wakeup u)
  then show ?thesis using a su wake_fold_suspended [of a s u "[0..<length (callers s)]" k t]
    by (simp add: wakeup_def split: if_splits)
next
  case (Tick dt)
  then show ?thesis by simp
qed

text \<open>While a key is registered, no step starts a pipeline for it.\<close>

lemma map_task_key_finish:
  "map task_key (xs[t := (xs ! t)\<lparr>task_status := x\<rparr>]) = map task_key xs"
proof (rule nth_equalityI)
  show "length (map task_key (xs[t := (xs ! t)\<lparr>task_status := x\<rparr>])) = length (map task_key xs)"
    by simp
next
  fix i assume "i < length (map task_key (xs[t := (xs ! t)\<lparr>task_status := x\<rparr>]))"
  then show "map task_key (xs[t := (xs ! t)\<lparr>task_status := x\<rparr>]) ! i = map task_key xs ! i"
    by (cases "i = t") simp_all
qed

lemma pipelines_map: "pipelines k s = length (filter (\<lambda>x. x = k) (map task_key (tasks s)))"
  by (simp add: pipelines_def filter_map comp_def)

lemma step_pipelines:
  assumes "in_flight_requests s k = Some t"
  shows "pipelines k (step rf e s) = pipelines k s"
proof (cases e)
  case (Call cc rt dur dbg)
  show ?thesis
  proof (cases "cache_key cc rt dur = k")
    case True
    then show ?thesis using assms Call
      by (simp add: analyze_country_begin_cases pipelines_def split: option.splits)
  next
    case False
    then show ?thesis using Call
      by (simp add: analyze_country_begin_cases pipelines_def start_task_def task_key_def
          split: option.splits)
  qed
next
  case (Finish u env)
  have "map task_key (tasks (step rf e s)) = map task_key (tasks s)"
    using Finish by (simp add: task_finish_def map_task_key_finish)
  then show ?thesis by (simp only: pipelines_map)
next
  case (Wakeup u)
  then show ?thesis by (simp add: pipelines_def wakeup_frame)
next
  case (Tick dt)
  then show ?thesis by (simp add: pipelines_def)
qed

lemma run_suspended:
  assumes inv: "registry_inv None s" and a: "a < length (callers s)"
    and su: "suspended_on (callers (run rf es s) ! a) k t"
  shows "callers (run rf es s) ! a = callers s ! a \<and> pipelines k (run rf es s) = pipelines k s \<and>
         a < length (callers (run rf es s))"
  using su
proof (induction es rule: rev_induct)
  case Nil
  then show ?case using a by (simp add: run_Nil)
next
  case (snoc e es)
  let ?s = "run rf es s"
  have len: "length (callers s) \<le> length (callers ?s)"
    by (induction es rule: rev_induct)
       (simp_all add: run_Nil run_snoc order_trans [OF _ step_callers_length])
  then have a': "a < length (callers ?s)" using a by simp
  have su': "suspended_on (callers (step rf e ?s) ! a) k t" using snoc.prems by (simp add: run_snoc)
  have same: "callers (step rf e ?s) ! a = callers ?s ! a" using step_suspended [OF a' su'] .
  then have "suspended_on (callers ?s ! a) k t" using su' by simp
  note IH = snoc.IH [OF this]
  have reg: "in_flight_requests ?s k = Some t"
    using suspended_registered(1) [OF registry_inv_run [OF inv] a'] same su' by simp
  show ?case
    using IH same step_pipelines [OF reg, of rf e] a' step_callers_length [of ?s rf e]
    by (simp add: run_snoc)
qed

lemma reachable_one_pending_per_key: "one_pending_per_key (run rf es init_state)"
proof -
  let ?r = "run rf es init_state"
  have p: "pending_registered ?r"
    using registry_invD(3) [OF registry_inv_reachable] .
  show ?thesis
    unfolding one_pending_per_key_def
  proof (intro allI impI, elim conjE)
    fix u v
    assume u: "u < length (tasks ?r)" and v: "v < length (tasks ?r)"
      and pu: "task_status (tasks ?r ! u) = Pending"
      and pv: "task_status (tasks ?r ! v) = Pending"
      and k: "task_key (tasks ?r ! u) = task_key (tasks ?r ! v)"
    have "in_flight_requests ?r (task_key (tasks ?r ! v)) = Some u"
      using pending_registeredD [OF p u pu] by (simp only: k)
    moreover have "in_flight_requests ?r (task_key (tasks ?r ! v)) = Some v"
      using pending_registeredD [OF p v pv] .
    ultimately have "Some u = Some v" by (rule trans [OF sym])
    then show "u = v" by (simp only: option.inject)
  qed
qed

lemma call_adds_one:
  "length (callers (step rf (Call cc rt dur dbg) s)) = Suc (length (callers s))"
  by (simp add: analyze_country_begin_cases start_task_def split: option.splits)

lemma call_new_caller_suspended:
  assumes "suspended_on (callers (step rf (Call cc rt dur dbg) s) ! length (callers s)) k t"
  shows "k = cache_key cc rt dur" "get_cached s k = None"
    "pipelines k (step rf (Call cc rt dur dbg) s)
       = (if is_in_flight s k then pipelines k s else pipelines k s + 1)"
proof -
  let ?k = "cache_key cc rt dur"
  have nc: "get_cached s ?k = None"
    using assms by (cases "get_cached s ?k")
      (simp_all add: analyze_country_begin_cases suspended_on_def)
  show k: "k = ?k"
  proof (cases "in_flight_requests s ?k")
    case None
    then show ?thesis using assms nc
      by (simp add: analyze_country_begin_cases start_task_def suspended_on_def)
  next
    case (Some u)
    then show ?thesis using assms nc await_in_flight_cases [of ?k u s]
      by (auto simp: analyze_country_begin_cases suspended_on_def)
  qed
  show "get_cached s k = None" using nc k by simp
  show "pipelines k (step rf (Call cc rt dur dbg) s)
       = (if is_in_flight s k then pipelines k s else pipelines k s + 1)"
    using nc k
    by (cases "in_flight_requests s ?k")
       (simp_all add: analyze_country_begin_cases start_task_def pipelines_def is_in_flight_def
          task_key_def)
qed

text \<open>
  Claim C1. Take any reachable state, a call of \<open>analyze_country\<close>, and any further
  events after which that call is still suspended, on a task \<open>t\<close>. Then a second call
  with the same country code, risk tolerance and duration starts no task: it awaits the
  same task \<open>t\<close>, which stays the one registered under the key, and since before the
  first call exactly one pipeline has been started for the key if none was in flight,
  and none otherwise. Moreover, in every reachable state, two pending tasks with the same
  key are the same task, and no two suspended calls own a task for the same key.
\<close>

theorem in_flight_deduplication:
  assumes reach: "s = run rf es0 init_state"
    and later: "s2 = run rf es (step rf (Call cc rt dur dbg) s)"
    and susp: "suspended_on (callers s2 ! length (callers s)) k t"
  shows "k = cache_key cc rt dur \<and>
         tasks (step rf (Call cc rt dur dbg') s2) = tasks s2 \<and>
         callers (step rf (Call cc rt dur dbg') s2) = callers s2 @ [await_in_flight k t s2] \<and>
         in_flight_requests (step rf (Call cc rt dur dbg') s2) k = Some t \<and>
         pipelines k (step rf (Call cc rt dur dbg') s2)
           = (if is_in_flight s k then pipelines k s else pipelines k s + 1) \<and>
         (\<forall>es'. one_pending_per_key (run rf es' init_state) \<and>
                owners_distinct (run rf es' init_state))"
proof -
  let ?s1 = "step rf (Call cc rt dur dbg) s"
  let ?a = "length (callers s)"
  have inv: "registry_inv None s" using reach registry_inv_reachable by simp
  have inv1: "registry_inv None ?s1" using inv by (rule registry_inv_step)
  have a1: "?a < length (callers ?s1)" using call_adds_one [of rf cc rt dur dbg s] by simp
  have su: "suspended_on (callers (run rf es ?s1) ! ?a) k t" using susp later by simp
  note R = run_suspended [OF inv1 a1 su]
  have su1: "suspended_on (callers ?s1 ! ?a) k t" using su R by simp
  note C = call_new_caller_suspended [OF su1]
  have inv2: "registry_inv None s2" using later registry_inv_run [OF inv1] by simp
  have a2: "?a < length (callers s2)" using R later by simp
  note G = suspended_registered [OF inv2 a2 susp]
  have step2: "step rf (Call cc rt dur dbg') s2 = add_caller (await_in_flight k t s2) s2"
    using G C(1) by (simp add: analyze_country_begin_cases)
  have "pipelines k (add_caller (await_in_flight k t s2) s2) = pipelines k s2"
    by (simp add: pipelines_def)
  then have "pipelines k (add_caller (await_in_flight k t s2) s2)
      = (if is_in_flight s k then pipelines k s else pipelines k s + 1)"
    using R C(3) later by simp
  then show ?thesis
    unfolding step2
    using C(1) G(1) reachable_one_pending_per_key registry_invD(2) [OF registry_inv_reachable]
    by simp
qed

lemma cache_key_fra: "cache_key ''FRA'' ''low'' ''short-term'' = ''FRA_low_short-term''"
  by (simp add: cache_key_def)

lemma first_call_pending_run:
  "run rf [Tick 1] (step rf (Call ''FRA'' ''low'' ''short-term'' False) init_state) = first_call_pending"
  by (simp add: run_def init_state_def analyze_country_begin_def cache_key_fra get_cached_def
      cache_get_def get_in_flight_def set_in_flight_def add_caller_def Let_def
      first_call_pending_def)

theorem in_flight_deduplication_witness:
  "suspended_on (callers first_call_pending ! length (callers init_state))
     ''FRA_low_short-term'' 0 \<and>
   callers (step decimal_round (Call ''FRA'' ''low'' ''short-term'' True) first_call_pending)
     = [AwaitingOwnTask ''FRA_low_short-term'' 0, AwaitingInFlight ''FRA_low_short-term'' 0] \<and>
   pipelines ''FRA_low_short-term''
     (step decimal_round (Call ''FRA'' ''low'' ''short-term'' True) first_call_pending) = 1"
proof -
  have r: "init_state = run decimal_round [] init_state" by (simp add: run_def)
  have l: "first_call_pending
      = run decimal_round [Tick 1] (step decimal_round (Call ''FRA'' ''low'' ''short-term'' False) init_state)"
    by (simp only: first_call_pending_run)
  have h: "suspended_on (callers first_call_pending ! length (callers init_state))
     ''FRA_low_short-term'' 0"
    by (simp add: first_call_pending_def init_state_def suspended_on_def)
  have aw: "await_in_flight ''FRA_low_short-term'' 0 first_call_pending
      = AwaitingInFlight ''FRA_low_short-term'' 0"
    by (simp add: first_call_pending_def await_in_flight_def status_of_def)
  have nf: "\<not> is_in_flight init_state ''FRA_low_short-term''"
    by (simp add: init_state_def is_in_flight_def)
  have p0: "pipelines ''FRA_low_short-term'' init_state = 0"
    by (simp add: init_state_def pipelines_def)
  have c: "callers first_call_pending = [AwaitingOwnTask ''FRA_low_short-term'' 0]"
    by (simp add: first_call_pending_def)
  note T = in_flight_deduplication [OF r l h, of True]
  have t1: "callers (step decimal_round (Call ''FRA'' ''low'' ''short-term'' True) first_call_pending)
     = callers first_call_pending @
       [await_in_flight ''FRA_low_short-term'' 0 first_call_pending]"
    using T by (elim conjE)
  have t2: "pipelines ''FRA_low_short-term''
       (step decimal_round (Call ''FRA'' ''low'' ''short-term'' True) first_call_pending)
     = (if is_in_flight init_state ''FRA_low_short-term''
        then pipelines ''FRA_low_short-term'' init_state
        else pipelines ''FRA_low_short-term'' init_state + 1)"
    using T by (elim conjE)
  have "callers (step decimal_round (Call ''FRA'' ''low'' ''short-term'' True) first_call_pending)
     = [AwaitingOwnTask ''FRA_low_short-term'' 0, AwaitingInFlight ''FRA_low_short-term'' 0]"
    unfolding t1 aw c by simp
  moreover have "pipelines ''FRA_low_short-term''
     (step decimal_round (Call ''FRA'' ''low'' ''short-term'' True) first_call_pending) = 1"
    unfolding t2 p0 using nf by simp
  ultimately show ?thesis using h by (simp only: simp_thms)
qed

section \<open>Cache population, idempotence and the waiter\<close>






lemma cache_get_put_same:
  assumes "now \<le> now'" "now' < now + ttl"
  shows "cache_get (cache_put c now k v) now' k = Some v"
proof -
  define c1 where "c1 = filter (\<lambda>entry. fst entry \<noteq> k) (filter (live now) c)"
  define c2 where "c2 = (if maxsize \<le> length c1 then tl c1 else c1)"
  have "set c2 \<subseteq> set c1"
    by (cases c1) (auto simp: c2_def)
  then have nk: "k \<notin> fst ` set (filter (live now') c2)"
    by (auto simp: c1_def)
  have put: "cache_put c now k v = c2 @ [(k, v, now + ttl)]"
    by (simp add: cache_put_def Let_def c1_def c2_def)
  have "map_of (filter (live now') c2) k = None"
    using nk by (simp add: map_of_eq_None_iff)
  then show ?thesis
    using assms by (simp add: put cache_get_def live_def map_add_def)
qed






lemma france_fetch:
  assumes r: "rounds rf"
  shows "fetch_and_build rf ''FRA'' ''low'' ''short-term'' False (providers_down france)
     = Inr (ResultDict france_result, False, france_missing)"
proof -
  have h: "has_identity france" by (simp add: has_identity_def france_def)
  have sub: "travel_risk_sub_score (normalize_metrics
        (build_raw_metrics (profile_population france) [] [] [] [])) = 80"
    "health_infra_score (normalize_metrics
        (build_raw_metrics (profile_population france) [] [] [] [])) = 50"
    "env_stability_score (normalize_metrics
        (build_raw_metrics (profile_population france) [] [] [] [])) = 50"
    unfolding normalized_providers_down
    by (simp_all add: travel_risk_sub_score_def health_infra_score_def env_stability_score_def
        get_default_def)
  have "rf 80 0 = of_int 80 / 10 ^ 0"
    by (rule rounds_eq [OF r]) (simp_all add: round_slack_def)
  moreover have "rf 50 0 = of_int 50 / 10 ^ 0"
    by (rule rounds_eq [OF r]) (simp_all add: round_slack_def)
  ultimately have w: "rf 80 0 = 80" "rf 50 0 = 50" by simp_all
  have m: "missing_of (build_raw_metrics (profile_population france) [] [] [] [])
      = france_missing"
    by (simp add: missing_providers_down france_def france_missing_def)
  have n: "profile_country_name france = Some ''France''" by (simp add: france_def)
  define S where "S = rf
     ((449 / 10 + 4 * normalize_population (profile_population france)) / 119 * 100) 2"
  have sc: "score_country rf (metrics_for_scoring (normalize_metrics
        (build_raw_metrics (profile_population france) [] [] [] [])))
      (get_weights ''low'' ''short-term'') = Inr S"
    unfolding S_def by (rule score_providers_down)
  have "rf S 1 = 409 / 10"
    unfolding S_def by (rule france_score [OF r])
  then have o: "rf S (Suc 0) = 409 / 10" by simp
  show ?thesis
    unfolding fetch_providers_down [OF h]
    by (simp add: build_result_def Let_def sc o sub w m n france_result_def)
qed


lemma unavailable_fetch:
  "fetch_and_build rf cc rt dur dbg (providers_down (profile_unavailable cc'))
     = Inr (EmptyDict, False, [''iso2_code''])"
  by (simp add: fetch_and_build_def providers_down_def profile_unavailable_def)

lemma escapes_fetch: "fetch_and_build rf cc rt dur dbg (Escapes e) = Inl e"
  by (simp add: fetch_and_build_def)

text \<open>
  Claim C3, at a failing input: a call for France (low, short-term) while the country
  profile cannot be fetched. The claim says that the call returns an empty result with a
  missing-metric marker and that the result cache is not populated. The call does return
  the empty result with the marker \<open>iso2_code\<close>, but the empty result is stored: the guard
  of \<open>set_cache\<close> tests for \<open>None\<close> and the pipeline returns the empty dict. A second call
  a minute later starts no pipeline and returns the empty result as a cache hit, with no
  missing-metric marker. When the pipeline is left by an exception instead, nothing is
  stored and the second call starts a new pipeline.
\<close>

theorem identity_failure_cached:
  "callers (run rf identity_failure_request init_state) =
     [Returned (EmptyDict, False, [''iso2_code'']), Returned (EmptyDict, True, [])] \<and>
   country_cache (run rf identity_failure_request init_state) =
     [(''FRA_low_short-term'', EmptyDict, 3600)] \<and>
   length (tasks (run rf identity_failure_request init_state)) = 1 \<and>
   callers (run rf pipeline_raises_request init_state) =
     [Raised (OtherError ''ConnectError''), AwaitingOwnTask ''FRA_low_short-term'' 1] \<and>
   country_cache (run rf pipeline_raises_request init_state) = []"
  by (simp add: identity_failure_request_def pipeline_raises_request_def run_def init_state_def
      analyze_country_begin_def Let_def
      cache_key_fra get_cached_def cache_get_def get_in_flight_def set_in_flight_def
      add_caller_def await_in_flight_def status_of_def task_finish_def
      unavailable_fetch escapes_fetch wakeup_def
      wake_one_def analyze_country_resume_def set_caller_def set_cache_def cache_put_def
      remove_in_flight_def is_in_flight_def ttl_def maxsize_def live_def)

section \<open>A stored result stays until it expires or is evicted\<close>











lemma analyze_country_resume_clock [simp]: "clock (analyze_country_resume i s) = clock s"
  by (auto simp: analyze_country_resume_def split: caller.splits task_status.splits sum.splits)

lemma wake_one_clock [simp]: "clock (wake_one t s i) = clock s"
  by (simp add: wake_one_def)

lemma wake_fold_clock [simp]: "clock (foldl (wake_one t) s is) = clock s"
  by (induction "is" arbitrary: s) simp_all






lemma wakeups_single [simp]:
  "wakeups [Wakeup t] = 1" "wakeups [Call cc rt dur dbg] = 0" "wakeups [Finish t env] = 0"
  "wakeups [Tick dt] = 0"
  by (simp_all add: wakeups_def)










lemma cache_key_inj [simp]: "cache_key c rt dur = cache_key c' rt dur \<longleftrightarrow> c = c'"
  by (simp add: cache_key_def)







text \<open>
  Claim C5, at a failing input: two calls for France (low, short-term) begin before the
  task finishes. One pipeline runs and the second call is reported as a cache miss, but
  what it returns in the place of the result is the whole tuple of the in-flight task
  (result, flag and missing metrics), not the result that the owning call returns. This
  holds whatever \<open>round\<close> does at a middle.
\<close>

theorem waiter_returns_tuple:
  assumes "rounds rf"
  shows "callers (run rf duplicate_request init_state) =
     [Returned (ResultDict france_result, False, france_missing),
      Returned (ResultTuple (ResultDict france_result) False france_missing, False, [])] \<and>
   length (tasks (run rf duplicate_request init_state)) = 1 \<and>
   ResultTuple (ResultDict france_result) False france_missing \<noteq> ResultDict france_result"
  by (simp add: duplicate_request_def run_def init_state_def analyze_country_begin_def Let_def
      cache_key_fra get_cached_def cache_get_def get_in_flight_def set_in_flight_def
      add_caller_def await_in_flight_def status_of_def task_finish_def
      france_fetch [OF assms] wakeup_def
      wake_one_def analyze_country_resume_def set_caller_def set_cache_def
      remove_in_flight_def is_in_flight_def)

theorem waiter_returns_tuple_witness:
  "rounds decimal_round \<and>
   callers (run decimal_round duplicate_request init_state) =
     [Returned (ResultDict france_result, False, france_missing),
      Returned (ResultTuple (ResultDict france_result) False france_missing, False, [])] \<and>
   length (tasks (run decimal_round duplicate_request init_state)) = 1 \<and>
   ResultTuple (ResultDict france_result) False france_missing \<noteq> ResultDict france_result"
  using waiter_returns_tuple [OF rounds_decimal_round] rounds_decimal_round
  by (simp only: simp_thms)

end
